theory Spec2Isabelle
  imports Complex_Main
begin

section \<open>Errors\<close>

text \<open>
  The exceptions that the modelled code raises or catches.  \<open>UpbitRateLimitError\<close> carries
  the three values that \<open>wait_if_needed\<close> formats into its message (group name, bucket
  length, effective limit); the other library errors carry their message.
  \<open>OtherException\<close> stands for any other subclass of \<open>Exception\<close>;
  \<open>CancelledError\<close> is a \<open>BaseException\<close> and is not caught by \<open>except Exception\<close>.
  \<open>RecursionError\<close> is what the interpreter raises when calls are nested deeper than
  its recursion limit.
\<close>

datatype error =
    ValueError string
  | KeyError string
  | UpbitError string
  | UpbitRateLimitError string nat int
  | ConnectionClosed
  | CancelledError
  | RecursionError
  | OtherException

section \<open>limiter.py: the Remaining-Req header\<close>

subsection \<open>The string operations of Python that the parser uses\<close>

text \<open>
  Strings are lists of 8-bit characters.  \<open>is_space\<close> is \<open>str.isspace\<close> on the code
  points below 256, which is what \<open>str.strip()\<close> removes.
\<close>

definition is_space :: "char \<Rightarrow> bool" where
  "is_space c \<longleftrightarrow>
     (let n = (of_char c :: nat)
      in (9 \<le> n \<and> n \<le> 13) \<or> (28 \<le> n \<and> n \<le> 32) \<or> n = 133 \<or> n = 160)"

definition strip :: "string \<Rightarrow> string" where
  "strip s = rev (dropWhile is_space (rev (dropWhile is_space s)))"

text \<open>\<open>s.split(c)\<close> for a one-character separator: always at least one piece.\<close>

fun split_on :: "char \<Rightarrow> string \<Rightarrow> string list" where
  "split_on c [] = [[]]"
| "split_on c (x # xs) =
     (if x = c then [] # split_on c xs
      else (case split_on c xs of
              [] \<Rightarrow> [[x]]
            | p # ps \<Rightarrow> (x # p) # ps))"

text \<open>\<open>s.split(c, 1)\<close> on a string that contains \<open>c\<close>: the text before and after the
  first occurrence.\<close>

definition split_first :: "char \<Rightarrow> string \<Rightarrow> string \<times> string" where
  "split_first c s = (takeWhile (\<lambda>x. x \<noteq> c) s, drop 1 (dropWhile (\<lambda>x. x \<noteq> c) s))"

text \<open>
  \<open>int(s)\<close> on a string, base ten: surrounding white space is dropped, one sign is
  allowed, then decimal digits, where a single underscore may stand between two digits.
  Below code point 256 only the ASCII digits are decimal.  CPython refuses more than
  \<open>max_str_digits\<close> digits (4300 unless reconfigured) with a \<open>ValueError\<close> as well.
  \<open>None\<close> is the \<open>ValueError\<close>.
\<close>

definition is_digit :: "char \<Rightarrow> bool" where
  "is_digit c \<longleftrightarrow> (let n = (of_char c :: nat) in 48 \<le> n \<and> n \<le> 57)"

definition digit_val :: "char \<Rightarrow> nat" where
  "digit_val c = (of_char c :: nat) - 48"

definition max_str_digits :: nat where
  "max_str_digits = 4300"

fun parse_digits :: "nat \<Rightarrow> string \<Rightarrow> nat option" where
  "parse_digits acc [] = Some acc"
| "parse_digits acc (c # cs) =
     (if is_digit c then parse_digits (10 * acc + digit_val c) cs
      else if c = CHR ''_'' then
        (case cs of
           [] \<Rightarrow> None
         | d # ds \<Rightarrow> if is_digit d then parse_digits (10 * acc + digit_val d) ds else None)
      else None)"

definition parse_unsigned :: "string \<Rightarrow> nat option" where
  "parse_unsigned s =
     (case s of
        [] \<Rightarrow> None
      | c # cs \<Rightarrow>
          if \<not> is_digit c then None
          else if max_str_digits < length (filter is_digit s) then None
          else parse_digits (digit_val c) cs)"

definition py_int :: "string \<Rightarrow> int option" where
  "py_int s =
     (case strip s of
        [] \<Rightarrow> None
      | c # cs \<Rightarrow>
          if c = CHR ''-'' then map_option (\<lambda>n. - int n) (parse_unsigned cs)
          else if c = CHR ''+'' then map_option int (parse_unsigned cs)
          else map_option int (parse_unsigned (c # cs)))"

subsection \<open>parse_remaining_req\<close>

text \<open>The values of the parsed dictionary: an \<open>int\<close> under \<open>min\<close> and \<open>sec\<close>, a
  string under every other key.\<close>

datatype hval = IntV int | StrV string

type_synonym parsed = "string \<rightharpoonup> hval"

text \<open>The \<open>for raw_part in parts\<close> loop, with the dictionary built so far.\<close>

fun parse_parts :: "string list \<Rightarrow> parsed \<Rightarrow> error + parsed" where
  "parse_parts [] result = Inr result"
| "parse_parts (raw_part # parts) result =
     (let part = strip raw_part in
      if CHR ''='' \<notin> set part then parse_parts parts result
      else
        (let key = strip (fst (split_first CHR ''='' part));
             val = strip (snd (split_first CHR ''='' part))
         in if key = ''min'' \<or> key = ''sec'' then
              (case py_int val of
                 None \<Rightarrow> Inl (ValueError (''Invalid numeric value for '' @ key @ '': '' @ val))
               | Some n \<Rightarrow> parse_parts parts (result(key \<mapsto> IntV n)))
            else parse_parts parts (result(key \<mapsto> StrV val))))"

definition parse_remaining_req :: "string \<Rightarrow> error + parsed" where
  "parse_remaining_req header_value =
     (if header_value = [] then Inl (ValueError ''Empty Remaining-Req header'')
      else
        (case parse_parts (split_on CHR '';'' header_value) Map.empty of
           Inl e \<Rightarrow> Inl e
         | Inr result \<Rightarrow>
             if result ''group'' = None then
               Inl (ValueError ''Missing 'group' in Remaining-Req header'')
             else if result ''sec'' = None \<and> result ''min'' = None then
               Inl (ValueError ''Missing rate limit values in Remaining-Req header'')
             else Inr result))"

section \<open>limiter.py: RateLimiter\<close>

text \<open>
  The attributes of a \<open>RateLimiter\<close>.  Time stamps are the floats of \<open>time.time()\<close>,
  taken here as real numbers; \<open>bucket\<close> is the deque, oldest entry first.
  \<open>_max_retries\<close>, \<open>_base_delay\<close> and \<open>_max_delay\<close> are assigned once in
  \<open>__init__\<close> (5, 1.0 and 60.0) and never again, so they are constants.
\<close>

record limiter =
  group_name :: string
  max_requests :: int
  remaining :: "int option"
  auto_retry :: bool
  bucket :: "real list"
  retry_count :: nat

definition max_retries :: nat where
  "max_retries = 5"

definition base_delay :: real where
  "base_delay = 1.0"

definition max_delay :: real where
  "max_delay = 60.0"

definition new_limiter :: "string \<Rightarrow> int \<Rightarrow> bool \<Rightarrow> limiter" where
  "new_limiter g m a =
     \<lparr>group_name = g, max_requests = m, remaining = None, auto_retry = a,
      bucket = [], retry_count = 0\<rparr>"

text \<open>The leak loop: \<open>while self._bucket and current_time - self._bucket[0] >= 1.0\<close>.\<close>

fun leak :: "real \<Rightarrow> real list \<Rightarrow> real list" where
  "leak current_time [] = []"
| "leak current_time (t # ts) =
     (if current_time - t \<ge> 1.0 then leak current_time ts else t # ts)"

definition effective_limit :: "limiter \<Rightarrow> int" where
  "effective_limit s =
     (case remaining s of
        None \<Rightarrow> max_requests s
      | Some r \<Rightarrow> if r < max_requests s then r else max_requests s)"

definition base_wait :: "real \<Rightarrow> real list \<Rightarrow> real" where
  "base_wait current_time b =
     (case b of
        [] \<Rightarrow> 0.1
      | oldest_request # _ \<Rightarrow> max 0.0 (1.0 - (current_time - oldest_request)))"

definition wait_time :: "real \<Rightarrow> real list \<Rightarrow> nat \<Rightarrow> real" where
  "wait_time current_time b k =
     min (base_wait current_time b * 2 ^ k + base_delay * 2 ^ k) max_delay"

text \<open>
  One pass through the body of \<open>wait_if_needed\<close>, from reading the clock to the first
  of: the slot is taken, the error is raised, or the coroutine goes to sleep.
\<close>

datatype pass = Acquired limiter | Rejected error limiter | Sleep real limiter

definition attempt :: "real \<Rightarrow> limiter \<Rightarrow> pass" where
  "attempt current_time s =
     (let b = leak current_time (bucket s);
          lim = effective_limit s
      in if int (length b) \<ge> lim then
           (if \<not> auto_retry s then
              Rejected (UpbitRateLimitError (group_name s) (length b) lim) (s\<lparr>bucket := b\<rparr>)
            else
              Sleep (wait_time current_time b (retry_count s))
                (s\<lparr>bucket := b, retry_count := min (retry_count s + 1) max_retries\<rparr>))
         else Acquired (s\<lparr>bucket := b @ [current_time], retry_count := 0\<rparr>))"

subsection \<open>update_from_headers and reset\<close>

type_synonym headers = "string \<rightharpoonup> string"

text \<open>\<open>headers.get("Remaining-Req") or headers.get("remaining-req")\<close>: the first value
  unless it is missing or empty.\<close>

definition lookup_header :: "headers \<Rightarrow> string option" where
  "lookup_header h =
     (case h ''Remaining-Req'' of
        None \<Rightarrow> h ''remaining-req''
      | Some v \<Rightarrow> if v = [] then h ''remaining-req'' else Some v)"

text \<open>
  Only \<open>ValueError\<close> is caught.  The parser stores an \<open>int\<close> under \<open>sec\<close>, so the
  branch for a string there is never taken (lemma \<open>parse_parts_sec_int\<close>).
\<close>

definition update_from_headers :: "headers \<Rightarrow> limiter \<Rightarrow> error + limiter" where
  "update_from_headers h s =
     (case lookup_header h of
        None \<Rightarrow> Inr s
      | Some remaining_req \<Rightarrow>
          if remaining_req = [] then Inr s
          else
            (case parse_remaining_req remaining_req of
               Inl (ValueError _) \<Rightarrow> Inr s
             | Inl e \<Rightarrow> Inl e
             | Inr parsed \<Rightarrow>
                 if parsed ''group'' \<noteq> Some (StrV (group_name s)) then Inr s
                 else
                   (case parsed ''sec'' of
                      Some (IntV n) \<Rightarrow> Inr (s\<lparr>remaining := Some n\<rparr>)
                    | _ \<Rightarrow> Inr s)))"

definition reset :: "limiter \<Rightarrow> limiter" where
  "reset s = s\<lparr>bucket := [], retry_count := 0, remaining := None\<rparr>"

subsection \<open>wait_if_needed\<close>

text \<open>
  What another task does to the limiter while \<open>wait_if_needed\<close> sleeps: the calls of
  its other methods.  A call of \<open>update_from_headers\<close> that raised would leave the
  limiter as it was.
\<close>

datatype action = Observe headers | Reset

fun perform :: "action \<Rightarrow> limiter \<Rightarrow> limiter" where
  "perform (Observe h) s = (case update_from_headers h s of Inl _ \<Rightarrow> s | Inr s' \<Rightarrow> s')"
| "perform Reset s = reset s"

definition perform_all :: "action list \<Rightarrow> limiter \<Rightarrow> limiter" where
  "perform_all acts s = fold perform acts s"

text \<open>
  \<open>wait_if_needed\<close> calls itself after every sleep and reads the clock once per call, so
  the recursion is over the clock readings: each entry of the list is the value that
  \<open>time.time()\<close> returns in one call, with what the other tasks do during the sleep
  that follows it.  The self-call is a nested call, and the interpreter bounds the
  nesting: \<open>depth\<close> is the number of nested self-calls it still allows when
  \<open>wait_if_needed\<close> is called (the recursion limit, 1000 unless reconfigured, less the
  frames in use).  The self-call made when none is left raises \<open>RecursionError\<close>, which
  nothing catches.  The result has the delays slept, in order, and how the call ended;
  \<open>Suspended\<close> says that after all the listed readings the coroutine has not ended.
\<close>

datatype status = Admitted | Raised error | Suspended

fun wait_if_needed ::
  "nat \<Rightarrow> (real \<times> action list) list \<Rightarrow> limiter \<Rightarrow> real list \<times> status \<times> limiter" where
  "wait_if_needed depth [] s = ([], Suspended, s)"
| "wait_if_needed depth ((current_time, acts) # ticks) s =
     (case attempt current_time s of
        Acquired s' \<Rightarrow> ([], Admitted, s')
      | Rejected e s' \<Rightarrow> ([], Raised e, s')
      | Sleep d s' \<Rightarrow>
          (case depth of
             0 \<Rightarrow> ([d], Raised RecursionError, perform_all acts s')
           | Suc depth' \<Rightarrow>
               (case wait_if_needed depth' ticks (perform_all acts s') of
                  (ds, r, s'') \<Rightarrow> (d # ds, r, s''))))"

section \<open>websocket/client.py: UpbitWebSocket\<close>

subsection \<open>Data\<close>

text \<open>
  JSON values, with objects as association lists in insertion order, as Python's
  dictionaries keep it.  A channel configuration is such a dictionary; \<open>map_of\<close> is the
  lookup (\<open>d.get(k)\<close>, \<open>k in d\<close>).
\<close>

datatype json =
    JNull
  | JBool bool
  | JInt int
  | JStr string
  | JArr "json list"
  | JObj "(string \<times> json) list"

type_synonym channel = "(string \<times> json) list"

type_synonym conn = nat

text \<open>
  The attributes of an \<open>UpbitWebSocket\<close>.  A connection is known by its number, in the
  order in which \<open>websockets.connect\<close> returned them.
\<close>

record session =
  access_key :: "string option"
  secret_key :: "string option"
  websocket :: "conn option"
  subscriptions :: "(string \<times> channel list) list"
  running :: bool
  reconnect_delay :: real

definition RECONNECT_DELAY :: real where
  "RECONNECT_DELAY = 1.0"

definition MAX_RECONNECT_DELAY :: real where
  "MAX_RECONNECT_DELAY = 60.0"

definition new_session :: "string option \<Rightarrow> string option \<Rightarrow> session" where
  "new_session ak sk =
     \<lparr>access_key = ak, secret_key = sk, websocket = None, subscriptions = [],
      running = False, reconnect_delay = RECONNECT_DELAY\<rparr>"

text \<open>
  What the client does to the outside: the frames handed to \<open>send\<close> (the value given to
  \<open>json.dumps\<close>, with the connection it went to), the arguments of \<open>asyncio.sleep\<close>, the
  number of connections opened, the number of tokens generated, the connections
  closed by \<open>close\<close>, and the connections whose \<open>close()\<close> a call of \<open>close\<close> is
  still awaiting, one entry per such call.
\<close>

record world =
  frames :: "(conn \<times> json) list"
  sleeps :: "real list"
  opened :: nat
  tokens :: nat
  closed :: "conn list"
  closing :: "conn list"

definition new_world :: world where
  "new_world = \<lparr>frames = [], sleeps = [], opened = 0, tokens = 0, closed = [], closing = []\<rparr>"

text \<open>
  \<open>generate_jwt_token\<close> of auth.py draws a fresh nonce and the clock and signs with
  HMAC-SHA256, so its result is taken as given: a function of the number of tokens
  generated before and of the four arguments of the call.
\<close>

type_synonym signer = "nat \<Rightarrow> string \<Rightarrow> string \<Rightarrow> json option \<Rightarrow> json option \<Rightarrow> string"

text \<open>The tests replace the signer by a mock with a fixed return value.\<close>

definition mock_jwt :: signer where
  "mock_jwt n ak sk query_params body = ''mock_jwt_token''"

text \<open>
  How an \<open>await\<close> ends: it completes, or it raises \<open>ConnectionClosed\<close>, some other
  \<open>Exception\<close>, or \<open>CancelledError\<close>.
\<close>

datatype outcome = Done | ConnLost | Fault | Cancel

fun raised :: "outcome \<Rightarrow> error" where
  "raised ConnLost = ConnectionClosed"
| "raised Cancel = CancelledError"
| "raised Fault = OtherException"
| "raised Done = OtherException"

subsection \<open>connect, subscribe, unsubscribe, close\<close>

text \<open>
  Each method returns the exception it raised, if any, with the state it left.
  \<open>connect\<close> turns every \<open>Exception\<close> of \<open>websockets.connect\<close> into an \<open>UpbitError\<close>;
  a \<open>CancelledError\<close> passes through.
\<close>

definition connect :: "outcome \<Rightarrow> session \<times> world \<Rightarrow> error option \<times> session \<times> world" where
  "connect r = (\<lambda>(s, w).
     (case r of
        Done \<Rightarrow>
          (None,
           s\<lparr>websocket := Some (opened w), running := True,
             reconnect_delay := RECONNECT_DELAY\<rparr>,
           w\<lparr>opened := opened w + 1\<rparr>)
      | Cancel \<Rightarrow> (Some CancelledError, s, w)
      | _ \<Rightarrow> (Some (UpbitError ''WebSocket connection failed''), s, w)))"

text \<open>
  \<open>self.access_key and self.secret_key\<close>: both are set and neither is the empty string.
\<close>

definition credentials :: "session \<Rightarrow> (string \<times> string) option" where
  "credentials s =
     (case access_key s of
        None \<Rightarrow> None
      | Some ak \<Rightarrow>
          if ak = [] then None
          else (case secret_key s of
                  None \<Rightarrow> None
                | Some sk \<Rightarrow> if sk = [] then None else Some (ak, sk)))"

definition has_private_channel :: "channel list \<Rightarrow> bool" where
  "has_private_channel channels =
     list_ex (\<lambda>ch. map_of ch ''type'' = Some (JStr ''myOrder'') \<or>
                   map_of ch ''type'' = Some (JStr ''myAsset'')) channels"

definition ticket_msg :: "signer \<Rightarrow> string \<Rightarrow> channel list \<Rightarrow> session \<Rightarrow> world \<Rightarrow> json \<times> world" where
  "ticket_msg sign ticket channels s w =
     (case credentials s of
        None \<Rightarrow> (JObj [(''ticket'', JStr ticket)], w)
      | Some (ak, sk) \<Rightarrow>
          if has_private_channel channels then
            (JObj [(''ticket'', JStr ticket), (''auth'', JStr (sign (tokens w) ak sk None None))],
             w\<lparr>tokens := tokens w + 1\<rparr>)
          else (JObj [(''ticket'', JStr ticket)], w))"

definition optional_key :: "string \<Rightarrow> channel \<Rightarrow> (string \<times> json) list" where
  "optional_key k channel = (case map_of channel k of None \<Rightarrow> [] | Some v \<Rightarrow> [(k, v)])"

text \<open>\<open>channel["type"]\<close> raises \<open>KeyError\<close> when the key is missing.\<close>

definition channel_msg :: "channel \<Rightarrow> error + json" where
  "channel_msg channel =
     (case map_of channel ''type'' of
        None \<Rightarrow> Inl (KeyError ''type'')
      | Some ty \<Rightarrow>
          Inr (JObj ((''type'', ty) # optional_key ''codes'' channel
                     @ optional_key ''isOnlyRealtime'' channel
                     @ optional_key ''isOnlySnapshot'' channel)))"

fun channel_msgs :: "channel list \<Rightarrow> error + json list" where
  "channel_msgs [] = Inr []"
| "channel_msgs (channel # channels) =
     (case channel_msg channel of
        Inl e \<Rightarrow> Inl e
      | Inr m \<Rightarrow> (case channel_msgs channels of Inl e \<Rightarrow> Inl e | Inr ms \<Rightarrow> Inr (m # ms)))"

text \<open>
  \<open>subscribe\<close> up to its \<open>await\<close>: the connection and the message to send, or the
  exception raised before anything is sent.
\<close>

definition subscribe_begin ::
  "signer \<Rightarrow> string \<Rightarrow> channel list \<Rightarrow> session \<times> world \<Rightarrow> (error + conn \<times> json) \<times> world" where
  "subscribe_begin sign ticket channels = (\<lambda>(s, w).
     (case websocket s of
        None \<Rightarrow> (Inl (UpbitError ''Not connected to WebSocket''), w)
      | Some c \<Rightarrow>
          (case ticket_msg sign ticket channels s w of
             (tm, w') \<Rightarrow>
               (case channel_msgs channels of
                  Inl e \<Rightarrow> (Inl e, w')
                | Inr ms \<Rightarrow>
                    (Inr (c, JArr (tm # ms @ [JObj [(''format'', JStr ''DEFAULT'')]])), w')))))"

text \<open>\<open>subscribe\<close> from the end of \<open>await self.websocket.send(...)\<close>.\<close>

definition subscribe_end ::
  "string \<Rightarrow> channel list \<Rightarrow> conn \<Rightarrow> json \<Rightarrow> outcome \<Rightarrow> session \<times> world \<Rightarrow>
   error option \<times> session \<times> world" where
  "subscribe_end ticket channels c message r = (\<lambda>(s, w).
     (case r of
        Done \<Rightarrow>
          (None,
           s\<lparr>subscriptions := subscriptions s @ [(ticket, channels)]\<rparr>,
           w\<lparr>frames := frames w @ [(c, message)]\<rparr>)
      | _ \<Rightarrow> (Some (raised r), s, w)))"

definition subscribe ::
  "signer \<Rightarrow> string \<Rightarrow> channel list \<Rightarrow> outcome \<Rightarrow> session \<times> world \<Rightarrow>
   error option \<times> session \<times> world" where
  "subscribe sign ticket channels r = (\<lambda>(s, w).
     (case subscribe_begin sign ticket channels (s, w) of
        (Inl e, w') \<Rightarrow> (Some e, s, w')
      | (Inr (c, message), w') \<Rightarrow> subscribe_end ticket channels c message r (s, w')))"

definition unsubscribe :: "string \<Rightarrow> session \<Rightarrow> session" where
  "unsubscribe ticket s =
     s\<lparr>subscriptions := filter (\<lambda>(t, ch). t \<noteq> ticket) (subscriptions s)\<rparr>"

text \<open>
  \<open>close\<close> has an \<open>await\<close> between its two assignments, so it is taken in two parts.
  Up to the \<open>await\<close>: \<open>running\<close> is set to false, and a session with a connection starts
  closing it.  From the end of \<open>await self.websocket.close()\<close>: the handle is cleared,
  whatever it is by then; when the \<open>await\<close> raised, the exception leaves \<open>close\<close> and the
  handle stays.
\<close>

definition close_begin :: "session \<times> world \<Rightarrow> session \<times> world" where
  "close_begin = (\<lambda>(s, w).
     (case websocket s of
        None \<Rightarrow> (s\<lparr>running := False\<rparr>, w)
      | Some c \<Rightarrow> (s\<lparr>running := False\<rparr>, w\<lparr>closing := closing w @ [c]\<rparr>)))"

definition close_end :: "nat \<Rightarrow> outcome \<Rightarrow> session \<times> world \<Rightarrow> error option \<times> session \<times> world" where
  "close_end i r = (\<lambda>(s, w).
     if i < length (closing w) then
       (case r of
          Done \<Rightarrow>
            (None,
             s\<lparr>websocket := None\<rparr>,
             w\<lparr>closed := closed w @ [closing w ! i],
               closing := take i (closing w) @ drop (Suc i) (closing w)\<rparr>)
        | _ \<Rightarrow>
            (Some (raised r), s,
             w\<lparr>closing := take i (closing w) @ drop (Suc i) (closing w)\<rparr>))
     else (None, s, w))"

subsection \<open>run\<close>

text \<open>
  \<open>run\<close> is a coroutine: it is followed from one \<open>await\<close> to the next.  The control
  point says where it waits: for \<open>connect\<close>, for the \<open>send\<close> of one replayed
  subscription (with the subscriptions still to replay), for the next message of the
  connection it iterates, or for the back-off sleep in an \<open>except\<close> clause.
  \<open>Idle\<close> is before the first call, \<open>Exited\<close> after \<open>run\<close> returned or raised.
\<close>

datatype pc =
    Idle
  | AtConnect
  | AtSend string "channel list" conn json "(string \<times> channel list) list"
  | AtRecv conn
  | AtSleep
  | Exited "error option"

type_synonym config = "pc \<times> session \<times> world"

text \<open>The head of \<open>while self.running\<close>, up to the first \<open>await\<close> of the body.\<close>

definition loop_head :: "session \<times> world \<Rightarrow> config" where
  "loop_head = (\<lambda>(s, w).
     if \<not> running s then (Exited None, s, w)
     else (case websocket s of
             None \<Rightarrow> (AtConnect, s, w)
           | Some c \<Rightarrow> (AtRecv c, s, w)))"

text \<open>
  The three \<open>except\<close> clauses.  The sleep is called with the delay of that moment; the
  delay is doubled when the sleep is over.
\<close>

definition backoff :: "session \<times> world \<Rightarrow> config" where
  "backoff = (\<lambda>(s, w).
     (AtSleep, s\<lparr>websocket := None\<rparr>, w\<lparr>sleeps := sleeps w @ [reconnect_delay s]\<rparr>))"

definition handler :: "error \<Rightarrow> session \<times> world \<Rightarrow> config" where
  "handler e = (\<lambda>(s, w).
     (case e of
        ConnectionClosed \<Rightarrow> if running s then backoff (s, w) else loop_head (s, w)
      | CancelledError \<Rightarrow> (Exited (Some CancelledError), s\<lparr>running := False\<rparr>, w)
      | _ \<Rightarrow>
          if running s then backoff (s, w)
          else (Exited (Some (UpbitError ''WebSocket error'')), s, w)))"

text \<open>
  The \<open>for\<close> loop of \<open>_resubscribe\<close> over the subscriptions still to restore, then
  \<open>if self.websocket is None: continue\<close> and the start of the iteration over messages.
\<close>

fun resubscribe :: "signer \<Rightarrow> (string \<times> channel list) list \<Rightarrow> session \<times> world \<Rightarrow> config" where
  "resubscribe sign [] (s, w) =
     (case websocket s of
        None \<Rightarrow> loop_head (s, w)
      | Some c \<Rightarrow> (AtRecv c, s, w))"
| "resubscribe sign ((ticket, channels) # rest) (s, w) =
     (case subscribe_begin sign ticket channels (s, w) of
        (Inl e, w') \<Rightarrow> handler e (s, w')
      | (Inr (c, message), w') \<Rightarrow> (AtSend ticket channels c message rest, s, w'))"

text \<open>
  The events: a call of \<open>run\<close>, the end of the \<open>await\<close> that \<open>run\<close> is suspended in, the
  normal end of the message iteration, and calls of the other methods by other tasks.
  \<open>connect\<close> and \<open>subscribe\<close> change the session only after their \<open>await\<close> and are
  taken whole, with its outcome; \<open>close\<close> changes it on both sides and is two events,
  the call and the end of the \<open>await\<close> of the call numbered \<open>i\<close> among those pending.
  \<open>Resume Done\<close> at the message iteration is a message received, decoded and handled
  by the callback.  An event that cannot happen in the current state changes nothing.
\<close>

datatype event =
    Start
  | Resume outcome
  | EndOfStream
  | CallConnect outcome
  | CallSubscribe string "channel list" outcome
  | CallUnsubscribe string
  | CallClose
  | CloseResume nat outcome

fun step :: "signer \<Rightarrow> event \<Rightarrow> config \<Rightarrow> config" where
  "step sign Start (p, s, w) =
     (case p of
        Idle \<Rightarrow> loop_head (s, w)
      | Exited _ \<Rightarrow> loop_head (s, w)
      | _ \<Rightarrow> (p, s, w))"
| "step sign (Resume r) (p, s, w) =
     (case p of
        AtConnect \<Rightarrow>
          (case connect r (s, w) of
             (Some e, s', w') \<Rightarrow> handler e (s', w')
           | (None, s', w') \<Rightarrow>
               resubscribe sign (subscriptions s') (s'\<lparr>subscriptions := []\<rparr>, w'))
      | AtSend ticket channels c message rest \<Rightarrow>
          (case subscribe_end ticket channels c message r (s, w) of
             (Some e, s', w') \<Rightarrow> handler e (s', w')
           | (None, s', w') \<Rightarrow> resubscribe sign rest (s', w'))
      | AtRecv c \<Rightarrow>
          (case r of
             Done \<Rightarrow> (AtRecv c, s, w)
           | _ \<Rightarrow> handler (raised r) (s, w))
      | AtSleep \<Rightarrow>
          (case r of
             Done \<Rightarrow>
               loop_head
                 (s\<lparr>reconnect_delay := min (reconnect_delay s * 2) MAX_RECONNECT_DELAY\<rparr>, w)
           | _ \<Rightarrow> (Exited (Some (raised r)), s, w))
      | _ \<Rightarrow> (p, s, w))"
| "step sign EndOfStream (p, s, w) =
     (case p of
        AtRecv c \<Rightarrow> loop_head (s, w)
      | _ \<Rightarrow> (p, s, w))"
| "step sign (CallConnect r) (p, s, w) = (p, snd (connect r (s, w)))"
| "step sign (CallSubscribe ticket channels r) (p, s, w) =
     (p, snd (subscribe sign ticket channels r (s, w)))"
| "step sign (CallUnsubscribe ticket) (p, s, w) = (p, unsubscribe ticket s, w)"
| "step sign CallClose (p, s, w) = (p, close_begin (s, w))"
| "step sign (CloseResume i r) (p, s, w) = (p, snd (close_end i r (s, w)))"

definition exec :: "signer \<Rightarrow> event list \<Rightarrow> config \<Rightarrow> config" where
  "exec sign evs cfg = fold (step sign) evs cfg"

definition initial :: "string option \<Rightarrow> string option \<Rightarrow> config" where
  "initial ak sk = (Idle, new_session ak sk, new_world)"

section \<open>Properties of the rate limiter\<close>


lemma attempt_Acquired:
  "attempt t s = Acquired s' \<Longrightarrow>
     int (length (bucket s')) \<le> effective_limit s' \<and> retry_count s' = 0 \<and>
     bucket s' = leak t (bucket s) @ [t]"
  by (auto simp: attempt_def Let_def effective_limit_def split: if_splits option.splits)

lemma wait_if_needed_Admitted:
  "wait_if_needed depth ticks s = (ds, Admitted, s') \<Longrightarrow>
     int (length (bucket s')) \<le> effective_limit s' \<and> retry_count s' = 0"
proof (induction ticks arbitrary: s ds depth)
  case Nil
  then show ?case by simp
next
  case (Cons tick ticks)
  obtain t acts where tick: "tick = (t, acts)" by (cases tick)
  show ?case
  proof (cases "attempt t s")
    case (Acquired s1)
    from Acquired Cons.prems tick have "s' = s1" by simp
    then have "int (length (bucket s1)) \<le> effective_limit s1 \<and> retry_count s1 = 0"
      using attempt_Acquired [OF Acquired] by blast
    then show ?thesis using \<open>s' = s1\<close> by blast
  next
    case (Rejected e s1)
    with Cons.prems tick show ?thesis by simp
  next
    case (Sleep d s1)
    with Cons.prems tick obtain ds' depth' where
      "wait_if_needed depth' ticks (perform_all acts s1) = (ds', Admitted, s')"
      by (auto split: prod.splits nat.splits)
    then show ?thesis by (rule Cons.IH)
  qed
qed

text \<open>
  Claim C1.  Whenever a call of \<open>wait_if_needed\<close> ends by taking a slot, whatever the
  limiter it started from, the clock readings, and the \<open>update_from_headers\<close> and
  \<open>reset\<close> calls made during its sleeps, the bucket it leaves is no longer than the
  effective limit (the server's \<open>remaining\<close> when that is set and smaller than
  \<open>max_requests\<close>, otherwise \<open>max_requests\<close>), and so is the number of its time stamps
  less than one second older than the one just added.
\<close>
theorem acquire_within_capacity:
  assumes "wait_if_needed depth ticks s = (ds, Admitted, s')"
  shows "int (length (bucket s')) \<le> effective_limit s' \<and>
         int (length (filter (\<lambda>t. last (bucket s') - t < 1.0) (bucket s'))) \<le> effective_limit s'"
proof -
  have a: "int (length (bucket s')) \<le> effective_limit s'"
    using assms wait_if_needed_Admitted by blast
  have "length (filter (\<lambda>t. last (bucket s') - t < 1.0) (bucket s')) \<le> length (bucket s')"
    by (rule length_filter_le)
  with a show ?thesis by linarith
qed

lemmas limiter_eval = attempt_def effective_limit_def wait_time_def base_wait_def
  base_delay_def max_delay_def max_retries_def new_limiter_def perform_all_def
  update_from_headers_def lookup_header_def reset_def

lemmas parser_eval = parse_remaining_req_def strip_def is_space_def split_first_def
  py_int_def parse_unsigned_def is_digit_def digit_val_def max_str_digits_def

lemma parse_parts_error:
  "parse_parts ps r = Inl e \<Longrightarrow> \<exists>m. e = ValueError m"
  by (induction ps r rule: parse_parts.induct)
     (auto simp: Let_def split: if_splits option.splits)

lemma parse_remaining_req_error:
  "parse_remaining_req v = Inl e \<Longrightarrow> \<exists>m. e = ValueError m"
  by (auto simp: parse_remaining_req_def split: if_splits sum.splits dest: parse_parts_error)

lemma parse_parts_sec_int:
  "parse_parts ps r = Inr d \<Longrightarrow> (\<forall>x. r ''sec'' \<noteq> Some (StrV x)) \<Longrightarrow> d ''sec'' \<noteq> Some (StrV y)"
  by (induction ps r arbitrary: d rule: parse_parts.induct)
     (auto simp: Let_def split: if_splits option.splits)

lemma parse_remaining_req_sec_int:
  "parse_remaining_req v = Inr d \<Longrightarrow> d ''sec'' \<noteq> Some (StrV y)"
  by (auto simp: parse_remaining_req_def split: if_splits sum.splits dest: parse_parts_sec_int)

lemma update_from_headers_total:
  "\<exists>s'. update_from_headers h s = Inr s'"
  by (auto simp: update_from_headers_def split: option.splits sum.splits error.splits hval.splits
      dest: parse_remaining_req_error)

text \<open>
  Claim C7.  \<open>update_from_headers\<close> never raises.  It sets \<open>remaining\<close> to the parsed
  \<open>sec\<close> when the header value parses, the parsed group is \<open>group_name\<close> and \<open>sec\<close> is
  there, and changes nothing else; when there is no header value, when the value does
  not parse, when the group differs or when \<open>sec\<close> is absent, the limiter is returned
  as it was.
\<close>
theorem observe_sets_remaining:
  "(\<exists>s'. update_from_headers h s = Inr s') \<and>
   (lookup_header h = None \<longrightarrow> update_from_headers h s = Inr s) \<and>
   (\<forall>v. lookup_header h = Some v \<longrightarrow>
      (\<forall>e. parse_remaining_req v = Inl e \<longrightarrow> update_from_headers h s = Inr s) \<and>
      (\<forall>d. parse_remaining_req v = Inr d \<longrightarrow>
         (d ''group'' \<noteq> Some (StrV (group_name s)) \<longrightarrow> update_from_headers h s = Inr s) \<and>
         (d ''sec'' = None \<longrightarrow> update_from_headers h s = Inr s) \<and>
         (\<forall>n. d ''group'' = Some (StrV (group_name s)) \<and> d ''sec'' = Some (IntV n) \<longrightarrow>
            update_from_headers h s = Inr (s\<lparr>remaining := Some n\<rparr>)) \<and>
         (d ''group'' = Some (StrV (group_name s)) \<longrightarrow> d ''sec'' \<noteq> None \<longrightarrow>
            (\<exists>n. d ''sec'' = Some (IntV n)))))"
proof (intro conjI allI impI)
  show "\<exists>s'. update_from_headers h s = Inr s'" by (rule update_from_headers_total)
next
  assume "lookup_header h = None"
  then show "update_from_headers h s = Inr s" by (simp add: update_from_headers_def)
next
  fix v e assume "lookup_header h = Some v" "parse_remaining_req v = Inl e"
  then show "update_from_headers h s = Inr s"
    using parse_remaining_req_error [of v e] by (auto simp: update_from_headers_def)
next
  fix v d assume "lookup_header h = Some v" "parse_remaining_req v = Inr d"
    "d ''group'' \<noteq> Some (StrV (group_name s))"
  then show "update_from_headers h s = Inr s" by (simp add: update_from_headers_def)
next
  fix v d assume "lookup_header h = Some v" "parse_remaining_req v = Inr d" "d ''sec'' = None"
  then show "update_from_headers h s = Inr s" by (simp add: update_from_headers_def)
next
  fix v d n assume "lookup_header h = Some v" "parse_remaining_req v = Inr d"
    "d ''group'' = Some (StrV (group_name s)) \<and> d ''sec'' = Some (IntV n)"
  moreover from this have "v \<noteq> []" by (auto simp: parse_remaining_req_def)
  ultimately show "update_from_headers h s = Inr (s\<lparr>remaining := Some n\<rparr>)"
    by (simp add: update_from_headers_def)
next
  fix v d assume p: "parse_remaining_req v = Inr d" and "d ''sec'' \<noteq> None"
  then obtain x where x: "d ''sec'' = Some x" by auto
  show "\<exists>n. d ''sec'' = Some (IntV n)"
  proof (cases x)
    case (IntV n)
    with x show ?thesis by simp
  next
    case (StrV y)
    with x parse_remaining_req_sec_int [OF p, of y] show ?thesis by simp
  qed
qed


lemma update_from_headers_fields:
  "update_from_headers h s = Inr s' \<Longrightarrow> \<exists>r. s' = s\<lparr>remaining := r\<rparr>"
proof -
  have self: "s = s\<lparr>remaining := remaining s\<rparr>" by simp
  assume "update_from_headers h s = Inr s'"
  then consider "s' = s" | n where "s' = s\<lparr>remaining := Some n\<rparr>"
    by (auto simp: update_from_headers_def
        split: option.splits sum.splits error.splits hval.splits if_splits)
  then show ?thesis using self by (cases) blast+
qed




lemma attempt_full_auto:
  assumes "auto_retry s" "effective_limit s \<le> int (length (leak t (bucket s)))"
  shows "attempt t s =
           Sleep (wait_time t (leak t (bucket s)) (retry_count s))
             (s\<lparr>bucket := leak t (bucket s),
                retry_count := min (retry_count s + 1) max_retries\<rparr>)"
  using assms by (simp add: attempt_def Let_def)

lemma attempt_full_manual:
  assumes "\<not> auto_retry s" "effective_limit s \<le> int (length (leak t (bucket s)))"
  shows "attempt t s =
           Rejected (UpbitRateLimitError (group_name s) (length (leak t (bucket s)))
                       (effective_limit s))
             (s\<lparr>bucket := leak t (bucket s)\<rparr>)"
  using assms by (simp add: attempt_def Let_def)

lemma attempt_free:
  assumes "int (length (leak t (bucket s))) < effective_limit s"
  shows "attempt t s = Acquired (s\<lparr>bucket := leak t (bucket s) @ [t], retry_count := 0\<rparr>)"
  using assms by (simp add: attempt_def Let_def)

text \<open>
  Claim C6.  With \<open>auto_retry\<close> off, a call that finds the leaked bucket at or above the
  effective limit raises \<open>UpbitRateLimitError\<close> at once: nothing is slept, no time stamp
  is added, and the limiter is as before except for the entries leaked.  In particular
  this is so for the first call after \<open>update_from_headers\<close> has set \<open>remaining\<close> to 0,
  and for a limiter with \<open>max_requests = 2\<close> whose bucket holds 1000.0 twice, called at
  1000.0.
\<close>
theorem acquire_fails_without_auto_wait:
  "(\<not> auto_retry s \<and> effective_limit s \<le> int (length (leak now (bucket s))) \<longrightarrow>
      wait_if_needed depth ((now, acts) # ticks) s =
        ([], Raised (UpbitRateLimitError (group_name s) (length (leak now (bucket s)))
                       (effective_limit s)),
         s\<lparr>bucket := leak now (bucket s)\<rparr>)) \<and>
   (\<not> auto_retry s \<and> update_from_headers h s = Inr s' \<and> remaining s' = Some 0 \<longrightarrow>
      wait_if_needed depth ((now, acts) # ticks) s' =
        ([], Raised (UpbitRateLimitError (group_name s) (length (leak now (bucket s)))
                       (effective_limit s')),
         s'\<lparr>bucket := leak now (bucket s)\<rparr>)) \<and>
   wait_if_needed depth [(1000.0, [])] ((new_limiter g 2 False)\<lparr>bucket := [1000.0, 1000.0]\<rparr>) =
     ([], Raised (UpbitRateLimitError g 2 2),
      (new_limiter g 2 False)\<lparr>bucket := [1000.0, 1000.0]\<rparr>)"
proof (intro conjI impI)
  assume "\<not> auto_retry s \<and> effective_limit s \<le> int (length (leak now (bucket s)))"
  then show "wait_if_needed depth ((now, acts) # ticks) s =
        ([], Raised (UpbitRateLimitError (group_name s) (length (leak now (bucket s)))
                       (effective_limit s)),
         s\<lparr>bucket := leak now (bucket s)\<rparr>)"
    by (simp add: attempt_full_manual)
next
  assume a: "\<not> auto_retry s \<and> update_from_headers h s = Inr s' \<and> remaining s' = Some 0"
  then obtain r where s': "s' = s\<lparr>remaining := r\<rparr>"
    using update_from_headers_fields by blast
  from a have "effective_limit s' \<le> 0"
    by (simp add: effective_limit_def)
  then have "effective_limit s' \<le> int (length (leak now (bucket s')))" by linarith
  moreover from a s' have "\<not> auto_retry s'" by simp
  ultimately have "attempt now s' =
      Rejected (UpbitRateLimitError (group_name s') (length (leak now (bucket s')))
                       (effective_limit s'))
             (s'\<lparr>bucket := leak now (bucket s')\<rparr>)"
    by (rule attempt_full_manual [rotated])
  with s' show "wait_if_needed depth ((now, acts) # ticks) s' =
        ([], Raised (UpbitRateLimitError (group_name s) (length (leak now (bucket s)))
                       (effective_limit s')),
         s'\<lparr>bucket := leak now (bucket s)\<rparr>)"
    by simp
next
  show "wait_if_needed depth [(1000.0, [])] ((new_limiter g 2 False)\<lparr>bucket := [1000.0, 1000.0]\<rparr>) =
     ([], Raised (UpbitRateLimitError g 2 2),
      (new_limiter g 2 False)\<lparr>bucket := [1000.0, 1000.0]\<rparr>)"
    by (simp add: limiter_eval)
qed

lemma wait_if_needed_Sleep:
  assumes "attempt t s = Sleep d s1"
  shows "wait_if_needed (Suc depth) ((t, acts) # ticks) s =
           (d # fst (wait_if_needed depth ticks (perform_all acts s1)),
            snd (wait_if_needed depth ticks (perform_all acts s1)))"
    and "wait_if_needed 0 ((t, acts) # ticks) s = ([d], Raised RecursionError, perform_all acts s1)"
  using assms by (simp_all split: prod.splits)

text \<open>
  Claim C8.  With \<open>auto_retry\<close> on, a pass that finds the leaked bucket at or above the
  effective limit with retry count \<open>k\<close> sleeps \<open>min (baseWait * 2^k + 1.0 * 2^k) 60.0\<close>,
  where \<open>baseWait\<close> is \<open>max 0 (1.0 - (now - window[0]))\<close> for a non-empty leaked bucket
  and \<open>0.1\<close> for an empty one, sets the retry count to \<open>min (k + 1) 5\<close> and checks
  again by calling itself (which raises \<open>RecursionError\<close> when the interpreter allows
  no further nesting); a pass that finds room takes the slot without sleeping and sets
  the retry count to 0.
\<close>
theorem auto_wait_delay:
  "(auto_retry s \<and> effective_limit s \<le> int (length (leak now (bucket s))) \<longrightarrow>
      (let window = leak now (bucket s);
           k = retry_count s;
           baseWait = (if window = [] then 0.1 else max 0 (1.0 - (now - hd window)));
           delay = min (baseWait * 2 ^ k + 1.0 * 2 ^ k) 60.0;
           s1 = s\<lparr>bucket := window, retry_count := min (k + 1) 5\<rparr>
       in attempt now s = Sleep delay s1 \<and>
          fst (wait_if_needed depth ((now, acts) # ticks) s) =
            delay # (case depth of
                       0 \<Rightarrow> []
                     | Suc depth' \<Rightarrow> fst (wait_if_needed depth' ticks (perform_all acts s1))) \<and>
          snd (wait_if_needed depth ((now, acts) # ticks) s) =
            (case depth of
               0 \<Rightarrow> (Raised RecursionError, perform_all acts s1)
             | Suc depth' \<Rightarrow> snd (wait_if_needed depth' ticks (perform_all acts s1))))) \<and>
   (int (length (leak now (bucket s))) < effective_limit s \<longrightarrow>
      wait_if_needed depth ((now, acts) # ticks) s =
        ([], Admitted, s\<lparr>bucket := leak now (bucket s) @ [now], retry_count := 0\<rparr>))"
proof (intro conjI impI)
  assume a: "auto_retry s \<and> effective_limit s \<le> int (length (leak now (bucket s)))"
  have w: "wait_time now (leak now (bucket s)) (retry_count s) =
      min ((if leak now (bucket s) = [] then 0.1
            else max 0 (1.0 - (now - hd (leak now (bucket s))))) * 2 ^ retry_count s
           + 1.0 * 2 ^ retry_count s) 60.0"
    by (cases "leak now (bucket s)") (simp_all add: wait_time_def base_wait_def base_delay_def max_delay_def)
  from a have "attempt now s =
           Sleep (wait_time now (leak now (bucket s)) (retry_count s))
             (s\<lparr>bucket := leak now (bucket s),
                retry_count := min (retry_count s + 1) max_retries\<rparr>)"
    by (simp add: attempt_full_auto)
  with w have att: "attempt now s =
        Sleep (min ((if leak now (bucket s) = [] then 0.1
            else max 0 (1.0 - (now - hd (leak now (bucket s))))) * 2 ^ retry_count s
           + 1.0 * 2 ^ retry_count s) 60.0)
          (s\<lparr>bucket := leak now (bucket s),
             retry_count := min (retry_count s + 1) max_retries\<rparr>)"
    by simp
  show "let window = leak now (bucket s);
           k = retry_count s;
           baseWait = (if window = [] then 0.1 else max 0 (1.0 - (now - hd window)));
           delay = min (baseWait * 2 ^ k + 1.0 * 2 ^ k) 60.0;
           s1 = s\<lparr>bucket := window, retry_count := min (k + 1) 5\<rparr>
       in attempt now s = Sleep delay s1 \<and>
          fst (wait_if_needed depth ((now, acts) # ticks) s) =
            delay # (case depth of
                       0 \<Rightarrow> []
                     | Suc depth' \<Rightarrow> fst (wait_if_needed depth' ticks (perform_all acts s1))) \<and>
          snd (wait_if_needed depth ((now, acts) # ticks) s) =
            (case depth of
               0 \<Rightarrow> (Raised RecursionError, perform_all acts s1)
             | Suc depth' \<Rightarrow> snd (wait_if_needed depth' ticks (perform_all acts s1)))"
  proof (cases depth)
    case 0
    show ?thesis
      unfolding 0 Let_def
      by (simp only: wait_if_needed_Sleep(2) [OF att] att fst_conv snd_conv nat.case)
         (simp add: max_retries_def)
  next
    case (Suc depth')
    show ?thesis
      unfolding Suc Let_def
      by (simp only: wait_if_needed_Sleep(1) [OF att] att fst_conv snd_conv nat.case)
         (simp add: max_retries_def)
  qed
next
  assume "int (length (leak now (bucket s))) < effective_limit s"
  then show "wait_if_needed depth ((now, acts) # ticks) s =
        ([], Admitted, s\<lparr>bucket := leak now (bucket s) @ [now], retry_count := 0\<rparr>)"
    by (simp add: attempt_free)
qed





theorem acquire_within_capacity_witness:
  "wait_if_needed 986
     [(1000.0, [Observe [''Remaining-Req'' \<mapsto> ''group=test; min=500; sec=3'']]),
      (1000.5, [Reset]), (1002.0, [])]
     ((new_limiter ''test'' 2 True)\<lparr>bucket := [1000.0, 1000.0]\<rparr>) =
     ([2, 3], Admitted,
      \<lparr>group_name = ''test'', max_requests = 2, remaining = None, auto_retry = True,
       bucket = [1002.0], retry_count = 0\<rparr>) \<and>
   int (length [1002.0 :: real]) \<le>
     effective_limit \<lparr>group_name = ''test'', max_requests = 2, remaining = None,
       auto_retry = True, bucket = [1002.0], retry_count = 0\<rparr>"
proof -
  have run: "wait_if_needed 986
     [(1000.0, [Observe [''Remaining-Req'' \<mapsto> ''group=test; min=500; sec=3'']]),
      (1000.5, [Reset]), (1002.0, [])]
     ((new_limiter ''test'' 2 True)\<lparr>bucket := [1000.0, 1000.0]\<rparr>) =
     ([2, 3], Admitted,
      \<lparr>group_name = ''test'', max_requests = 2, remaining = None, auto_retry = True,
       bucket = [1002.0], retry_count = 0\<rparr>)"
    by (simp add: limiter_eval parser_eval)
  from acquire_within_capacity [OF run] run show ?thesis by simp
qed

theorem acquire_fails_without_auto_wait_witness:
  "wait_if_needed 986 [(1000.0, [])] ((new_limiter ''market'' 2 False)\<lparr>bucket := [999.5, 999.75]\<rparr>) =
     ([], Raised (UpbitRateLimitError ''market'' 2 2),
      (new_limiter ''market'' 2 False)\<lparr>bucket := [999.5, 999.75]\<rparr>) \<and>
   update_from_headers [''Remaining-Req'' \<mapsto> ''group=market; min=598; sec=0'']
     (new_limiter ''market'' 30 False) =
     Inr ((new_limiter ''market'' 30 False)\<lparr>remaining := Some 0\<rparr>) \<and>
   wait_if_needed 986 [(1000.0, [])] ((new_limiter ''market'' 30 False)\<lparr>remaining := Some 0\<rparr>) =
     ([], Raised (UpbitRateLimitError ''market'' 0 0),
      (new_limiter ''market'' 30 False)\<lparr>remaining := Some 0\<rparr>)"
proof -
  let ?s = "(new_limiter ''market'' 2 False)\<lparr>bucket := [999.5, 999.75]\<rparr>"
  let ?t = "new_limiter ''market'' 30 False"
  let ?h = "[''Remaining-Req'' \<mapsto> ''group=market; min=598; sec=0'']"
  have h1: "\<not> auto_retry ?s \<and> effective_limit ?s \<le> int (length (leak 1000.0 (bucket ?s)))"
    by (simp add: limiter_eval)
  have upd: "update_from_headers ?h ?t = Inr (?t\<lparr>remaining := Some 0\<rparr>)"
    by (simp add: limiter_eval parser_eval)
  have h2: "\<not> auto_retry ?t \<and> update_from_headers ?h ?t = Inr (?t\<lparr>remaining := Some 0\<rparr>) \<and>
      remaining (?t\<lparr>remaining := Some 0\<rparr>) = Some 0"
    using upd by (simp add: limiter_eval)
  from acquire_fails_without_auto_wait
         [where s = ?s and now = "1000.0" and acts = "[]" and ticks = "[]" and depth = 986]
       acquire_fails_without_auto_wait
         [where s = ?t and h = ?h and s' = "?t\<lparr>remaining := Some 0\<rparr>"
            and now = "1000.0" and acts = "[]" and ticks = "[]" and depth = 986]
       h1 h2 upd
  show ?thesis
    by (simp add: limiter_eval)
qed


theorem observe_sets_remaining_witness:
  "lookup_header [''Remaining-Req'' \<mapsto> ''group = market ;  min = 100 ; sec = 5''] =
     Some ''group = market ;  min = 100 ; sec = 5'' \<and>
   parse_remaining_req ''group = market ;  min = 100 ; sec = 5'' =
     Inr [''group'' \<mapsto> StrV ''market'', ''min'' \<mapsto> IntV 100, ''sec'' \<mapsto> IntV 5] \<and>
   update_from_headers [''Remaining-Req'' \<mapsto> ''group = market ;  min = 100 ; sec = 5'']
     (new_limiter ''market'' 30 True) =
     Inr ((new_limiter ''market'' 30 True)\<lparr>remaining := Some 5\<rparr>) \<and>
   parse_remaining_req ''group=order; sec=5'' =
     Inr [''group'' \<mapsto> StrV ''order'', ''sec'' \<mapsto> IntV 5] \<and>
   update_from_headers [''remaining-req'' \<mapsto> ''group=order; sec=5'']
     ((new_limiter ''market'' 30 True)\<lparr>remaining := Some 10\<rparr>) =
     Inr ((new_limiter ''market'' 30 True)\<lparr>remaining := Some 10\<rparr>) \<and>
   parse_remaining_req ''invalid format'' =
     Inl (ValueError ''Missing 'group' in Remaining-Req header'') \<and>
   update_from_headers [''Remaining-Req'' \<mapsto> ''invalid format'']
     ((new_limiter ''market'' 30 True)\<lparr>remaining := Some 10\<rparr>) =
     Inr ((new_limiter ''market'' 30 True)\<lparr>remaining := Some 10\<rparr>) \<and>
   parse_remaining_req ''group=market; min=100'' =
     Inr [''group'' \<mapsto> StrV ''market'', ''min'' \<mapsto> IntV 100] \<and>
   update_from_headers [''Remaining-Req'' \<mapsto> ''group=market; min=100'']
     ((new_limiter ''market'' 30 True)\<lparr>remaining := Some 10\<rparr>) =
     Inr ((new_limiter ''market'' 30 True)\<lparr>remaining := Some 10\<rparr>)"
proof -
  let ?s = "new_limiter ''market'' 30 True"
  let ?s10 = "?s\<lparr>remaining := Some 10\<rparr>"
  let ?h1 = "[''Remaining-Req'' \<mapsto> ''group = market ;  min = 100 ; sec = 5'']"
  let ?h2 = "[''remaining-req'' \<mapsto> ''group=order; sec=5'']"
  let ?h3 = "[''Remaining-Req'' \<mapsto> ''invalid format'']"
  let ?h4 = "[''Remaining-Req'' \<mapsto> ''group=market; min=100'']"
  have l1: "lookup_header ?h1 = Some ''group = market ;  min = 100 ; sec = 5''"
    and l2: "lookup_header ?h2 = Some ''group=order; sec=5''"
    and l3: "lookup_header ?h3 = Some ''invalid format''"
    and l4: "lookup_header ?h4 = Some ''group=market; min=100''"
    by (simp_all add: lookup_header_def)
  have p1: "parse_remaining_req ''group = market ;  min = 100 ; sec = 5'' =
      Inr [''group'' \<mapsto> StrV ''market'', ''min'' \<mapsto> IntV 100, ''sec'' \<mapsto> IntV 5]"
    by (simp add: parser_eval)
  have p2: "parse_remaining_req ''group=order; sec=5'' =
      Inr [''group'' \<mapsto> StrV ''order'', ''sec'' \<mapsto> IntV 5]"
    by (simp add: parser_eval)
  have p3: "parse_remaining_req ''invalid format'' =
      Inl (ValueError ''Missing 'group' in Remaining-Req header'')"
    by (simp add: parser_eval)
  have p4: "parse_remaining_req ''group=market; min=100'' =
      Inr [''group'' \<mapsto> StrV ''market'', ''min'' \<mapsto> IntV 100]"
    by (simp add: parser_eval)
  have g: "group_name ?s = ''market''" "group_name ?s10 = ''market''"
    by (simp_all add: new_limiter_def)
  have u1: "update_from_headers ?h1 ?s = Inr (?s\<lparr>remaining := Some 5\<rparr>)"
    using observe_sets_remaining [of ?h1 ?s] l1 p1 g by simp
  have u2: "update_from_headers ?h2 ?s10 = Inr ?s10"
    using observe_sets_remaining [of ?h2 ?s10] l2 p2 g by simp
  have u3: "update_from_headers ?h3 ?s10 = Inr ?s10"
    using observe_sets_remaining [of ?h3 ?s10] l3 p3 by simp
  have u4: "update_from_headers ?h4 ?s10 = Inr ?s10"
    using observe_sets_remaining [of ?h4 ?s10] l4 p4 g by simp
  from l1 p1 u1 p2 u2 p3 u3 p4 u4 show ?thesis by (intro conjI)
qed

theorem auto_wait_delay_witness:
  "wait_if_needed 986 [(1000.25, []), (1007.25, [])]
     ((new_limiter ''test'' 1 True)\<lparr>bucket := [1000.0], retry_count := 2\<rparr>) =
     ([7], Admitted, (new_limiter ''test'' 1 True)\<lparr>bucket := [1007.25]\<rparr>) \<and>
   wait_if_needed 0 [(1000.25, []), (1007.25, [])]
     ((new_limiter ''test'' 1 True)\<lparr>bucket := [1000.0], retry_count := 2\<rparr>) =
     ([7], Raised RecursionError,
      (new_limiter ''test'' 1 True)\<lparr>bucket := [1000.0], retry_count := 3\<rparr>) \<and>
   attempt 1000.25 ((new_limiter ''test'' 1 True)\<lparr>bucket := [1000.0], retry_count := 2\<rparr>) =
     Sleep 7 ((new_limiter ''test'' 1 True)\<lparr>bucket := [1000.0], retry_count := 3\<rparr>) \<and>
   attempt 5.0 ((new_limiter ''test'' 1 True)\<lparr>remaining := Some 0, retry_count := 5\<rparr>) =
     Sleep 35.2 ((new_limiter ''test'' 1 True)\<lparr>remaining := Some 0, retry_count := 5\<rparr>) \<and>
   attempt 1000.0 ((new_limiter ''test'' 1 True)\<lparr>bucket := [1000.0], retry_count := 10\<rparr>) =
     Sleep 60 ((new_limiter ''test'' 1 True)\<lparr>bucket := [1000.0], retry_count := 5\<rparr>)"
proof -
  let ?n = "new_limiter ''test'' 1 True"
  let ?s = "?n\<lparr>bucket := [1000.0], retry_count := 2\<rparr>"
  let ?s1 = "?n\<lparr>bucket := [1000.0], retry_count := 3\<rparr>"
  let ?z = "?n\<lparr>remaining := Some 0, retry_count := 5\<rparr>"
  let ?c = "?n\<lparr>bucket := [1000.0], retry_count := 10\<rparr>"
  have h1: "auto_retry ?s \<and> effective_limit ?s \<le> int (length (leak 1000.25 (bucket ?s)))"
    by (simp add: limiter_eval)
  have h2: "int (length (leak 1007.25 (bucket ?s1))) < effective_limit ?s1"
    by (simp add: limiter_eval)
  have h3: "auto_retry ?z \<and> effective_limit ?z \<le> int (length (leak 5.0 (bucket ?z)))"
    by (simp add: limiter_eval)
  have h4: "auto_retry ?c \<and> effective_limit ?c \<le> int (length (leak 1000.0 (bucket ?c)))"
    by (simp add: limiter_eval)
  have a: "attempt 1000.25 ?s = Sleep 7 ?s1"
    and b: "fst (wait_if_needed 986 [(1000.25, []), (1007.25, [])] ?s) =
              7 # fst (wait_if_needed 985 [(1007.25, [])] (perform_all [] ?s1))"
    and c: "snd (wait_if_needed 986 [(1000.25, []), (1007.25, [])] ?s) =
              snd (wait_if_needed 985 [(1007.25, [])] (perform_all [] ?s1))"
    using auto_wait_delay [of ?s "1000.25" 986 "[]" "[(1007.25, [])]"] h1
    by (simp_all add: Let_def new_limiter_def del: wait_if_needed.simps)
  have b0: "fst (wait_if_needed 0 [(1000.25, []), (1007.25, [])] ?s) = [7]"
    and c0: "snd (wait_if_needed 0 [(1000.25, []), (1007.25, [])] ?s) =
              (Raised RecursionError, perform_all [] ?s1)"
    using auto_wait_delay [of ?s "1000.25" 0 "[]" "[(1007.25, [])]"] h1
    by (simp_all add: Let_def new_limiter_def del: wait_if_needed.simps)
  have d: "wait_if_needed 985 [(1007.25, [])] ?s1 = ([], Admitted, ?n\<lparr>bucket := [1007.25]\<rparr>)"
    using auto_wait_delay [of ?s1 "1007.25" 985 "[]" "[]"] h2
    by (simp add: Let_def new_limiter_def)
  have e: "attempt 5.0 ?z = Sleep 35.2 ?z"
    using auto_wait_delay [of ?z "5.0" 0 "[]" "[]"] h3
    by (simp add: Let_def new_limiter_def del: wait_if_needed.simps)
  have f: "attempt 1000.0 ?c = Sleep 60 (?n\<lparr>bucket := [1000.0], retry_count := 5\<rparr>)"
    using auto_wait_delay [of ?c "1000.0" 0 "[]" "[]"] h4
    by (simp add: Let_def new_limiter_def del: wait_if_needed.simps)
  have g: "wait_if_needed 986 [(1000.25, []), (1007.25, [])] ?s =
      ([7], Admitted, ?n\<lparr>bucket := [1007.25]\<rparr>)"
    using b c d by (simp add: perform_all_def prod_eq_iff del: wait_if_needed.simps)
  have g0: "wait_if_needed 0 [(1000.25, []), (1007.25, [])] ?s =
      ([7], Raised RecursionError, ?s1)"
    using b0 c0 by (simp add: perform_all_def prod_eq_iff del: wait_if_needed.simps)
  from g g0 a e f show ?thesis by (intro conjI)
qed



lemmas ws_eval = exec_def initial_def new_session_def new_world_def loop_head_def handler_def
  backoff_def connect_def subscribe_def subscribe_begin_def subscribe_end_def unsubscribe_def
  close_begin_def close_end_def ticket_msg_def credentials_def has_private_channel_def channel_msg_def optional_key_def
  RECONNECT_DELAY_def MAX_RECONNECT_DELAY_def

section \<open>Properties of the streaming session\<close>

lemma map_of_optional_key:
  "map_of (optional_key k ch) k' = (if k' = k then map_of ch k else None)"
  by (simp add: optional_key_def split: option.splits)

lemma channel_msg_keys:
  assumes "channel_msg ch = Inr m"
  shows "\<exists>kvs. m = JObj kvs \<and>
           (\<forall>k. map_of kvs k =
              (if k \<in> {''type'', ''codes'', ''isOnlyRealtime'', ''isOnlySnapshot''}
               then map_of ch k else None))"
proof -
  from assms obtain ty where ty: "map_of ch ''type'' = Some ty"
    and m: "m = JObj ((''type'', ty) # optional_key ''codes'' ch
                     @ optional_key ''isOnlyRealtime'' ch
                     @ optional_key ''isOnlySnapshot'' ch)"
    by (auto simp: channel_msg_def split: option.splits)
  have "\<forall>k. map_of ((''type'', ty) # optional_key ''codes'' ch
                     @ optional_key ''isOnlyRealtime'' ch
                     @ optional_key ''isOnlySnapshot'' ch) k =
      (if k \<in> {''type'', ''codes'', ''isOnlyRealtime'', ''isOnlySnapshot''}
       then map_of ch k else None)"
    using ty by (auto simp: map_add_def map_of_optional_key split: option.splits)
  with m show ?thesis by blast
qed

lemma channel_msgs_typed:
  assumes "\<forall>ch \<in> set channels. map_of ch ''type'' \<noteq> None"
  shows "\<exists>ms. channel_msgs channels = Inr ms \<and> length ms = length channels \<and>
           (\<forall>i < length channels. channel_msg (channels ! i) = Inr (ms ! i))"
  using assms
proof (induction channels)
  case Nil
  then show ?case by simp
next
  case (Cons ch channels)
  then obtain ms where ms: "channel_msgs channels = Inr ms" "length ms = length channels"
    "\<forall>i < length channels. channel_msg (channels ! i) = Inr (ms ! i)"
    by auto
  from Cons.prems obtain m where m: "channel_msg ch = Inr m"
    by (auto simp: channel_msg_def split: option.splits)
  have "\<forall>i < length (ch # channels). channel_msg ((ch # channels) ! i) = Inr ((m # ms) ! i)"
    using m ms(3) by (auto simp: nth_Cons split: nat.splits)
  with m ms show ?case by simp
qed

lemma has_private_channel_iff:
  "has_private_channel channels \<longleftrightarrow>
     (\<exists>ch \<in> set channels. map_of ch ''type'' = Some (JStr ''myOrder'') \<or>
                           map_of ch ''type'' = Some (JStr ''myAsset''))"
  by (simp add: has_private_channel_def list_ex_iff)

lemma credentials_Some_iff:
  "credentials s = Some (ak, sk) \<longleftrightarrow>
     access_key s = Some ak \<and> ak \<noteq> [] \<and> secret_key s = Some sk \<and> sk \<noteq> []"
  by (auto simp: credentials_def split: option.splits)

lemma credentials_None_iff:
  "credentials s = None \<longleftrightarrow>
     access_key s = None \<or> access_key s = Some [] \<or> secret_key s = None \<or> secret_key s = Some []"
  by (auto simp: credentials_def split: option.splits)

text \<open>
  Claim C5.  A \<open>subscribe\<close> call on a connected session whose channel configurations all
  have a \<open>type\<close>, and whose \<open>send\<close> completes, sends one frame on the connection: a list
  that starts with the ticket object, which has an \<open>auth\<close> entry exactly when both keys
  are set and not empty and some configuration has type \<open>myOrder\<close> or \<open>myAsset\<close> (its
  value is the signer's token for the two keys with neither query parameters nor
  body); then one object per configuration, in order, holding \<open>type\<close> and those of
  \<open>codes\<close>, \<open>isOnlyRealtime\<close> and \<open>isOnlySnapshot\<close> that the configuration has, with
  the same values, and no other key; and last \<open>{"format": "DEFAULT"}\<close>.  The pair of
  ticket and configurations is appended to \<open>subscriptions\<close>.
\<close>

theorem subscribe_frame:
  assumes "websocket s = Some c"
    and "\<forall>ch \<in> set channels. map_of ch ''type'' \<noteq> None"
  shows "\<exists>tm ms.
     fst (subscribe sign ticket channels Done (s, w)) = None \<and>
     fst (snd (subscribe sign ticket channels Done (s, w))) =
       s\<lparr>subscriptions := subscriptions s @ [(ticket, channels)]\<rparr> \<and>
     frames (snd (snd (subscribe sign ticket channels Done (s, w)))) =
       frames w @ [(c, JArr (tm # ms @ [JObj [(''format'', JStr ''DEFAULT'')]]))] \<and>
     tm =
       (if (\<exists>ak sk. access_key s = Some ak \<and> ak \<noteq> [] \<and> secret_key s = Some sk \<and> sk \<noteq> []) \<and>
           (\<exists>ch \<in> set channels. map_of ch ''type'' = Some (JStr ''myOrder'') \<or>
                                 map_of ch ''type'' = Some (JStr ''myAsset''))
        then JObj [(''ticket'', JStr ticket),
                   (''auth'', JStr (sign (tokens w) (the (access_key s)) (the (secret_key s))
                                      None None))]
        else JObj [(''ticket'', JStr ticket)]) \<and>
     length ms = length channels \<and>
     (\<forall>i < length channels. \<exists>kvs. ms ! i = JObj kvs \<and>
        (\<forall>k. map_of kvs k =
           (if k \<in> {''type'', ''codes'', ''isOnlyRealtime'', ''isOnlySnapshot''}
            then map_of (channels ! i) k else None)))"
proof -
  from channel_msgs_typed [OF assms(2)] obtain ms where
    ms: "channel_msgs channels = Inr ms" "length ms = length channels"
      "\<forall>i < length channels. channel_msg (channels ! i) = Inr (ms ! i)"
    by blast
  obtain tm w' where tm: "ticket_msg sign ticket channels s w = (tm, w')"
    by (cases "ticket_msg sign ticket channels s w")
  have "w' = w \<or> w' = w\<lparr>tokens := tokens w + 1\<rparr>"
    using tm by (auto simp: ticket_msg_def split: option.splits if_splits)
  then obtain n where w': "w' = w\<lparr>tokens := n\<rparr>"
    by (metis world.surjective world.update_convs(4))
  have sub: "subscribe sign ticket channels Done (s, w) =
       (None,
        s\<lparr>subscriptions := subscriptions s @ [(ticket, channels)]\<rparr>,
        w\<lparr>frames := frames w @ [(c, JArr (tm # ms @ [JObj [(''format'', JStr ''DEFAULT'')]]))],
          tokens := tokens (snd (ticket_msg sign ticket channels s w))\<rparr>)"
  proof -
    have "subscribe sign ticket channels Done (s, w) =
       (None, s\<lparr>subscriptions := subscriptions s @ [(ticket, channels)]\<rparr>,
        w'\<lparr>frames := frames w' @ [(c, JArr (tm # ms @ [JObj [(''format'', JStr ''DEFAULT'')]]))]\<rparr>)"
      using assms(1) ms(1) tm by (simp add: subscribe_def subscribe_begin_def subscribe_end_def)
    also have "w'\<lparr>frames := frames w' @ [(c, JArr (tm # ms @ [JObj [(''format'', JStr ''DEFAULT'')]]))]\<rparr> =
        w\<lparr>frames := frames w @ [(c, JArr (tm # ms @ [JObj [(''format'', JStr ''DEFAULT'')]]))],
          tokens := tokens w'\<rparr>"
      by (simp add: w')
    finally show ?thesis using tm by simp
  qed
  have tmv: "tm =
       (if (\<exists>ak sk. access_key s = Some ak \<and> ak \<noteq> [] \<and> secret_key s = Some sk \<and> sk \<noteq> []) \<and>
           (\<exists>ch \<in> set channels. map_of ch ''type'' = Some (JStr ''myOrder'') \<or>
                                 map_of ch ''type'' = Some (JStr ''myAsset''))
        then JObj [(''ticket'', JStr ticket),
                   (''auth'', JStr (sign (tokens w) (the (access_key s)) (the (secret_key s))
                                      None None))]
        else JObj [(''ticket'', JStr ticket)])"
  proof (cases "credentials s")
    case None
    then have "\<not> (\<exists>ak sk. access_key s = Some ak \<and> ak \<noteq> [] \<and> secret_key s = Some sk \<and> sk \<noteq> [])"
      by (auto simp: credentials_None_iff)
    moreover from None tm have "tm = JObj [(''ticket'', JStr ticket)]"
      by (simp add: ticket_msg_def)
    ultimately show ?thesis by (simp only: simp_thms if_False)
  next
    case (Some p)
    obtain ak sk where p: "p = (ak, sk)" by (cases p)
    with Some have k: "access_key s = Some ak" "ak \<noteq> []" "secret_key s = Some sk" "sk \<noteq> []"
      by (simp_all add: credentials_Some_iff)
    with Some p tm show ?thesis
      by (auto simp: ticket_msg_def has_private_channel_iff split: if_splits)
  qed
  have "\<forall>i < length channels. \<exists>kvs. ms ! i = JObj kvs \<and>
        (\<forall>k. map_of kvs k =
           (if k \<in> {''type'', ''codes'', ''isOnlyRealtime'', ''isOnlySnapshot''}
            then map_of (channels ! i) k else None))"
    using ms(3) channel_msg_keys by blast
  with sub tmv ms(2) show ?thesis by (intro exI [of _ tm] exI [of _ ms]) simp
qed

text \<open>
  Claim C9.  On a connected session where the access key or the secret key is not set,
  a \<open>subscribe\<close> call with a configuration of type \<open>myOrder\<close> or \<open>myAsset\<close> raises
  nothing of its own: the only exception it can end with is the one of \<open>send\<close>.  When
  \<open>send\<close> completes, the frame has the ticket object without \<open>auth\<close>, no token was
  generated, and the pair is appended to \<open>subscriptions\<close>.
\<close>

theorem subscribe_private_without_credentials:
  assumes "websocket s = Some c"
    and "access_key s = None \<or> secret_key s = None"
    and "\<forall>ch \<in> set channels. map_of ch ''type'' \<noteq> None"
    and "\<exists>ch \<in> set channels. map_of ch ''type'' = Some (JStr ''myOrder'') \<or>
                              map_of ch ''type'' = Some (JStr ''myAsset'')"
  shows "\<exists>ms.
     subscribe sign ticket channels Done (s, w) =
       (None,
        s\<lparr>subscriptions := subscriptions s @ [(ticket, channels)]\<rparr>,
        w\<lparr>frames := frames w @
           [(c, JArr (JObj [(''ticket'', JStr ticket)] # ms @
                      [JObj [(''format'', JStr ''DEFAULT'')]]))]\<rparr>) \<and>
     length ms = length channels \<and>
     (\<forall>r. fst (subscribe sign ticket channels r (s, w)) =
            (if r = Done then None else Some (raised r)))"
proof -
  from channel_msgs_typed [OF assms(3)] obtain ms where
    ms: "channel_msgs channels = Inr ms" "length ms = length channels"
    by blast
  from assms(2) have cr: "credentials s = None"
    by (auto simp: credentials_None_iff)
  then have tm: "ticket_msg sign ticket channels s w = (JObj [(''ticket'', JStr ticket)], w)"
    by (simp add: ticket_msg_def)
  have "subscribe sign ticket channels Done (s, w) =
       (None,
        s\<lparr>subscriptions := subscriptions s @ [(ticket, channels)]\<rparr>,
        w\<lparr>frames := frames w @
           [(c, JArr (JObj [(''ticket'', JStr ticket)] # ms @
                      [JObj [(''format'', JStr ''DEFAULT'')]]))]\<rparr>)"
    using assms(1) ms(1) tm by (simp add: subscribe_def subscribe_begin_def subscribe_end_def)
  moreover have "fst (subscribe sign ticket channels r (s, w)) =
            (if r = Done then None else Some (raised r))" for r
    using assms(1) ms(1) tm
    by (cases r) (simp_all add: subscribe_def subscribe_begin_def subscribe_end_def)
  ultimately show ?thesis using ms(2) by blast
qed

theorem subscribe_frame_witness:
  "subscribe mock_jwt ''private-ticket''
     [[(''type'', JStr ''myOrder'')],
      [(''type'', JStr ''ticker''), (''codes'', JArr [JStr ''KRW-BTC'']),
       (''isOnlyRealtime'', JBool True), (''extra'', JInt 1)]]
     Done
     ((new_session (Some ''test_access'') (Some ''test_secret''))\<lparr>websocket := Some 0, running := True\<rparr>,
      new_world) =
     (None,
      (new_session (Some ''test_access'') (Some ''test_secret''))
        \<lparr>websocket := Some 0, running := True,
         subscriptions :=
           [(''private-ticket'',
             [[(''type'', JStr ''myOrder'')],
              [(''type'', JStr ''ticker''), (''codes'', JArr [JStr ''KRW-BTC'']),
               (''isOnlyRealtime'', JBool True), (''extra'', JInt 1)]])]\<rparr>,
      new_world
        \<lparr>frames :=
           [(0, JArr [JObj [(''ticket'', JStr ''private-ticket''), (''auth'', JStr ''mock_jwt_token'')],
                      JObj [(''type'', JStr ''myOrder'')],
                      JObj [(''type'', JStr ''ticker''), (''codes'', JArr [JStr ''KRW-BTC'']),
                            (''isOnlyRealtime'', JBool True)],
                      JObj [(''format'', JStr ''DEFAULT'')]])],
         tokens := 1\<rparr>)"
proof -
  let ?chs = "[[(''type'', JStr ''myOrder'')],
      [(''type'', JStr ''ticker''), (''codes'', JArr [JStr ''KRW-BTC'']),
       (''isOnlyRealtime'', JBool True), (''extra'', JInt 1)]]"
  let ?s = "(new_session (Some ''test_access'') (Some ''test_secret''))\<lparr>websocket := Some 0, running := True\<rparr>"
  have h1: "websocket ?s = Some 0" by simp
  have h2: "\<forall>ch \<in> set ?chs. map_of ch ''type'' \<noteq> None" by simp
  have "fst (subscribe mock_jwt ''private-ticket'' ?chs Done (?s, new_world)) = None"
    using subscribe_frame [OF h1 h2, of mock_jwt "''private-ticket''" new_world]
    by (elim exE conjE)
  then show ?thesis
    by (simp add: ws_eval mock_jwt_def)
qed

theorem subscribe_private_without_credentials_witness:
  "subscribe mock_jwt ''private-ticket'' [[(''type'', JStr ''myOrder'')]] Done
     ((new_session None None)\<lparr>websocket := Some 0, running := True\<rparr>, new_world) =
     (None,
      (new_session None None)
        \<lparr>websocket := Some 0, running := True,
         subscriptions := [(''private-ticket'', [[(''type'', JStr ''myOrder'')]])]\<rparr>,
      new_world
        \<lparr>frames :=
           [(0, JArr [JObj [(''ticket'', JStr ''private-ticket'')],
                      JObj [(''type'', JStr ''myOrder'')],
                      JObj [(''format'', JStr ''DEFAULT'')]])]\<rparr>)"
proof -
  let ?chs = "[[(''type'', JStr ''myOrder'')]]"
  let ?s = "(new_session None None)\<lparr>websocket := Some 0, running := True\<rparr>"
  have h1: "websocket ?s = Some 0" by simp
  have h2: "access_key ?s = None \<or> secret_key ?s = None" by (simp add: new_session_def)
  have h3: "\<forall>ch \<in> set ?chs. map_of ch ''type'' \<noteq> None" by simp
  have h4: "\<exists>ch \<in> set ?chs. map_of ch ''type'' = Some (JStr ''myOrder'') \<or>
                              map_of ch ''type'' = Some (JStr ''myAsset'')" by simp
  from subscribe_private_without_credentials [OF h1 h2 h3 h4, of mock_jwt "''private-ticket''" new_world]
  obtain ms where
    r: "subscribe mock_jwt ''private-ticket'' ?chs Done (?s, new_world) =
       (None,
        ?s\<lparr>subscriptions := subscriptions ?s @ [(''private-ticket'', ?chs)]\<rparr>,
        new_world\<lparr>frames := frames new_world @
           [(0, JArr (JObj [(''ticket'', JStr ''private-ticket'')] # ms @
                      [JObj [(''format'', JStr ''DEFAULT'')]]))]\<rparr>)"
    and "length ms = length ?chs"
    by blast
  have "subscribe mock_jwt ''private-ticket'' ?chs Done (?s, new_world) =
     (None,
      ?s\<lparr>subscriptions := [(''private-ticket'', ?chs)]\<rparr>,
      new_world
        \<lparr>frames :=
           [(0, JArr [JObj [(''ticket'', JStr ''private-ticket'')],
                      JObj [(''type'', JStr ''myOrder'')],
                      JObj [(''format'', JStr ''DEFAULT'')]])]\<rparr>)"
    using r by (simp add: ws_eval)
  then show ?thesis by simp
qed

lemma step_fail_at_connect:
  assumes "running s" "f = ConnLost \<or> f = Fault"
  shows "step sign (Resume f) (AtConnect, s, w) =
           (AtSleep, s\<lparr>websocket := None\<rparr>, w\<lparr>sleeps := sleeps w @ [reconnect_delay s]\<rparr>)"
  using assms by (auto simp: connect_def handler_def backoff_def)

lemma step_fail_at_recv:
  assumes "running s" "f = ConnLost \<or> f = Fault"
  shows "step sign (Resume f) (AtRecv c, s, w) =
           (AtSleep, s\<lparr>websocket := None\<rparr>, w\<lparr>sleeps := sleeps w @ [reconnect_delay s]\<rparr>)"
  using assms by (auto simp: handler_def backoff_def)

lemma step_sleep_done:
  assumes "running s" "websocket s = None"
  shows "step sign (Resume Done) (AtSleep, s, w) =
           (AtConnect, s\<lparr>reconnect_delay := min (reconnect_delay s * 2) 60\<rparr>, w)"
  using assms by (simp add: loop_head_def MAX_RECONNECT_DELAY_def)

lemma exec_Cons: "exec sign (e # evs) cfg = exec sign evs (step sign e cfg)"
  by (simp add: exec_def)

lemma exec_Nil: "exec sign [] cfg = cfg"
  by (simp add: exec_def)

lemma exec_append: "exec sign (xs @ ys) cfg = exec sign ys (exec sign xs cfg)"
  by (simp add: exec_def)

lemma min_double_cap: "min (min (d * 2) 60 * 2 ^ i) (60::real) = min (d * 2 ^ Suc i) 60"
proof (cases "d * 2 \<le> 60")
  case True
  then show ?thesis by (simp add: mult.assoc)
next
  case False
  have one: "(1::real) \<le> 2 ^ i" by simp
  from False have big: "60 < d * 2" by simp
  have nn: "0 \<le> d * 2" using big by linarith
  have "d * 2 * 1 \<le> d * 2 * 2 ^ i"
    by (rule mult_left_mono [OF one nn])
  then have "d * 2 \<le> d * 2 ^ Suc i" by (simp only: mult_1_right power_Suc mult.assoc)
  with big have r: "60 < d * 2 ^ Suc i" by (rule less_le_trans)
  have "(60::real) * 1 \<le> 60 * 2 ^ i"
    using one by (intro mult_left_mono) simp_all
  then have l: "(60::real) \<le> 60 * 2 ^ i" by simp
  from big have "min (d * 2) 60 = 60" by simp
  then have "min (min (d * 2) 60 * 2 ^ i) (60::real) = min (60 * 2 ^ i) 60" by simp
  also have "\<dots> = 60" using l by simp
  also have "\<dots> = min (d * 2 ^ Suc i) 60" using r by simp
  finally show ?thesis .
qed

text \<open>Failed connection attempts in a row, each followed by the end of its sleep.\<close>

lemma connect_failures:
  assumes "running s" "websocket s = None" "reconnect_delay s \<le> 60"
    "set fs \<subseteq> {ConnLost, Fault}"
  shows "exec sign (concat (map (\<lambda>f. [Resume f, Resume Done]) fs)) (AtConnect, s, w) =
           (AtConnect,
            s\<lparr>reconnect_delay := min (reconnect_delay s * 2 ^ length fs) 60\<rparr>,
            w\<lparr>sleeps := sleeps w @ map (\<lambda>i. min (reconnect_delay s * 2 ^ i) 60) [0..<length fs]\<rparr>)"
  using assms
proof (induction fs arbitrary: s w)
  case Nil
  then show ?case by (simp add: exec_Nil)
next
  case (Cons f fs)
  let ?d = "reconnect_delay s"
  let ?s1 = "s\<lparr>websocket := None, reconnect_delay := min (?d * 2) 60\<rparr>"
  let ?w1 = "w\<lparr>sleeps := sleeps w @ [?d]\<rparr>"
  from Cons.prems have f: "f = ConnLost \<or> f = Fault" by auto
  have two: "exec sign [Resume f, Resume Done] (AtConnect, s, w) = (AtConnect, ?s1, ?w1)"
    using Cons.prems(1) f
    by (simp add: exec_Cons exec_Nil step_fail_at_connect step_sleep_done del: step.simps)
  have IH: "exec sign (concat (map (\<lambda>f. [Resume f, Resume Done]) fs)) (AtConnect, ?s1, ?w1) =
           (AtConnect,
            ?s1\<lparr>reconnect_delay := min (reconnect_delay ?s1 * 2 ^ length fs) 60\<rparr>,
            ?w1\<lparr>sleeps := sleeps ?w1 @ map (\<lambda>i. min (reconnect_delay ?s1 * 2 ^ i) 60) [0..<length fs]\<rparr>)"
    using Cons.prems by (intro Cons.IH) simp_all
  have split: "concat (map (\<lambda>f. [Resume f, Resume Done]) (f # fs)) =
      [Resume f, Resume Done] @ concat (map (\<lambda>f. [Resume f, Resume Done]) fs)"
    by simp
  have m: "map (\<lambda>i. min (?d * 2 ^ i) 60) [0..<length (f # fs)] =
      ?d # map (\<lambda>i. min (min (?d * 2) 60 * 2 ^ i) 60) [0..<length fs]"
  proof -
    have "map (\<lambda>i. min (?d * 2 ^ i) 60) [0..<Suc (length fs)] =
        min (?d * 2 ^ 0) 60 # map (\<lambda>i. min (?d * 2 ^ Suc i) 60) [0..<length fs]"
      by (rule map_upt_Suc)
    then show ?thesis using Cons.prems(3) by (simp only: min_double_cap list.size) simp
  qed
  have "exec sign (concat (map (\<lambda>f. [Resume f, Resume Done]) (f # fs))) (AtConnect, s, w) =
      exec sign (concat (map (\<lambda>f. [Resume f, Resume Done]) fs)) (AtConnect, ?s1, ?w1)"
    by (simp only: split exec_append two)
  also note IH
  finally show ?case
    using Cons.prems(3) by (simp only: m) (simp add: min_double_cap [of ?d "length fs"] Cons.prems(2))
qed


lemma failure_rounds:
  assumes "running s" "p = AtRecv c \<or> p = AtConnect \<and> websocket s = None"
    "reconnect_delay s \<le> 60" "set fs \<subseteq> {ConnLost, Fault}"
  shows "sleeps (snd (snd (exec sign (concat (map (\<lambda>f. [Resume f, Resume Done]) fs)) (p, s, w)))) =
           sleeps w @ map (\<lambda>i. min (reconnect_delay s * 2 ^ i) 60) [0..<length fs]"
proof (cases fs)
  case Nil
  then show ?thesis by (simp add: exec_Nil)
next
  case (Cons f fs')
  let ?d = "reconnect_delay s"
  let ?s1 = "s\<lparr>websocket := None, reconnect_delay := min (?d * 2) 60\<rparr>"
  let ?w1 = "w\<lparr>sleeps := sleeps w @ [?d]\<rparr>"
  from assms(4) Cons have f: "f = ConnLost \<or> f = Fault" and fs': "set fs' \<subseteq> {ConnLost, Fault}"
    by auto
  have first: "step sign (Resume f) (p, s, w) =
      (AtSleep, s\<lparr>websocket := None\<rparr>, w\<lparr>sleeps := sleeps w @ [?d]\<rparr>)"
    using assms(1,2) f step_fail_at_connect [of s f sign w] step_fail_at_recv [of s f sign c w]
    by blast
  have two: "exec sign [Resume f, Resume Done] (p, s, w) = (AtConnect, ?s1, ?w1)"
    using assms(1)
    by (simp add: exec_Cons exec_Nil first step_sleep_done del: step.simps)
  have rest: "exec sign (concat (map (\<lambda>f. [Resume f, Resume Done]) fs')) (AtConnect, ?s1, ?w1) =
           (AtConnect,
            ?s1\<lparr>reconnect_delay := min (reconnect_delay ?s1 * 2 ^ length fs') 60\<rparr>,
            ?w1\<lparr>sleeps := sleeps ?w1 @ map (\<lambda>i. min (reconnect_delay ?s1 * 2 ^ i) 60) [0..<length fs']\<rparr>)"
    using assms(1) fs' by (intro connect_failures) simp_all
  have m: "map (\<lambda>i. min (?d * 2 ^ i) 60) [0..<length fs] =
      ?d # map (\<lambda>i. min (min (?d * 2) 60 * 2 ^ i) 60) [0..<length fs']"
  proof -
    have "map (\<lambda>i. min (?d * 2 ^ i) 60) [0..<Suc (length fs')] =
        min (?d * 2 ^ 0) 60 # map (\<lambda>i. min (?d * 2 ^ Suc i) 60) [0..<length fs']"
      by (rule map_upt_Suc)
    then show ?thesis using assms(3) Cons by (simp only: min_double_cap list.size) simp
  qed
  have "exec sign (concat (map (\<lambda>f. [Resume f, Resume Done]) fs)) (p, s, w) =
      exec sign (concat (map (\<lambda>f. [Resume f, Resume Done]) fs')) (AtConnect, ?s1, ?w1)"
  proof -
    have "concat (map (\<lambda>f. [Resume f, Resume Done]) fs) =
        [Resume f, Resume Done] @ concat (map (\<lambda>f. [Resume f, Resume Done]) fs')"
      using Cons by simp
    then show ?thesis by (simp only: exec_append two)
  qed
  then show ?thesis by (simp only: rest m) simp
qed

lemma loop_head_session: "fst (snd (loop_head (s, w))) = s"
  by (simp add: loop_head_def split: option.splits)

lemma handler_delay: "reconnect_delay (fst (snd (handler e (s, w)))) = reconnect_delay s"
  by (cases e) (simp_all add: handler_def backoff_def loop_head_def split: option.splits)

lemma resubscribe_delay:
  "reconnect_delay (fst (snd (resubscribe sign subs (s, w)))) = reconnect_delay s"
proof (cases subs)
  case Nil
  then show ?thesis by (simp add: loop_head_def split: option.splits)
next
  case (Cons sub rest)
  obtain t chs where "sub = (t, chs)" by (cases sub)
  with Cons show ?thesis
    by (auto simp: handler_delay split: prod.splits sum.splits)
qed

lemma connect_in_run_resets:
  "reconnect_delay (fst (snd (step sign (Resume Done) (AtConnect, s, w)))) = RECONNECT_DELAY"
  by (simp add: connect_def resubscribe_delay)

lemma backoff_values:
  "map (\<lambda>i. min (2 ^ i) (60::real)) [0..<8] = [1, 2, 4, 8, 16, 32, 60, 60]"
proof -
  have "[0..<8] = [0, 1, 2, 3, 4, 5, 6, 7::nat]" by (simp add: upt_rec)
  then show ?thesis by simp
qed

lemma backoff_capped: "6 \<le> i \<Longrightarrow> min (2 ^ i) (60::real) = 60"
proof -
  assume "6 \<le> i"
  then have "(2::real) ^ 6 \<le> 2 ^ i" by (intro power_increasing) simp_all
  then show ?thesis by simp
qed

text \<open>
  Claim C4.  In a running session whose delay is 1.0, \<open>n\<close> failures in a row, each a
  \<open>ConnectionClosed\<close> or another exception at the message iteration or inside
  \<open>connect\<close>, make \<open>run\<close> sleep \<open>min (2^i) 60\<close> after failure \<open>i\<close> (counted from 0):
  1, 2, 4, 8, 16, 32, 60, 60 for the first eight and 60 from then on.  A \<open>connect\<close> that
  succeeds, called directly or by \<open>run\<close>, sets the delay to 1.0.
\<close>

theorem reconnect_backoff_sequence:
  "(running s \<and> reconnect_delay s = 1.0 \<and> (p = AtRecv c \<or> p = AtConnect \<and> websocket s = None) \<and>
    set fs \<subseteq> {ConnLost, Fault} \<longrightarrow>
      sleeps (snd (snd (exec sign (concat (map (\<lambda>f. [Resume f, Resume Done]) fs)) (p, s, w)))) =
        sleeps w @ map (\<lambda>i. min (2 ^ i) 60.0) [0..<length fs]) \<and>
   map (\<lambda>i. min (2 ^ i) (60.0::real)) [0..<8] = [1.0, 2.0, 4.0, 8.0, 16.0, 32.0, 60.0, 60.0] \<and>
   (\<forall>i. 6 \<le> i \<longrightarrow> min (2 ^ i) (60.0::real) = 60.0) \<and>
   reconnect_delay (fst (snd (connect Done (s, w)))) = 1.0 \<and>
   reconnect_delay (fst (snd (step sign (Resume Done) (AtConnect, s, w)))) = 1.0"
proof (intro conjI impI allI)
  assume a: "running s \<and> reconnect_delay s = 1.0 \<and>
    (p = AtRecv c \<or> p = AtConnect \<and> websocket s = None) \<and> set fs \<subseteq> {ConnLost, Fault}"
  then have "sleeps (snd (snd (exec sign (concat (map (\<lambda>f. [Resume f, Resume Done]) fs)) (p, s, w)))) =
           sleeps w @ map (\<lambda>i. min (reconnect_delay s * 2 ^ i) 60) [0..<length fs]"
    by (intro failure_rounds [of s p c fs sign w]) simp_all
  with a show "sleeps (snd (snd (exec sign (concat (map (\<lambda>f. [Resume f, Resume Done]) fs)) (p, s, w)))) =
        sleeps w @ map (\<lambda>i. min (2 ^ i) 60.0) [0..<length fs]"
    by simp
next
  show "map (\<lambda>i. min (2 ^ i) (60.0::real)) [0..<8] = [1.0, 2.0, 4.0, 8.0, 16.0, 32.0, 60.0, 60.0]"
    using backoff_values by simp
next
  fix i :: nat assume "6 \<le> i"
  then show "min (2 ^ i) (60.0::real) = 60.0" using backoff_capped by simp
next
  show "reconnect_delay (fst (snd (connect Done (s, w)))) = 1.0"
    by (simp add: connect_def RECONNECT_DELAY_def)
next
  show "reconnect_delay (fst (snd (step sign (Resume Done) (AtConnect, s, w)))) = 1.0"
    using connect_in_run_resets [of sign s w] by (simp add: RECONNECT_DELAY_def)
qed

theorem reconnect_backoff_sequence_witness:
  "sleeps (snd (snd (exec mock_jwt
     [Resume ConnLost, Resume Done, Resume Fault, Resume Done, Resume Fault, Resume Done,
      Resume ConnLost, Resume Done, Resume Fault, Resume Done, Resume Fault, Resume Done,
      Resume Fault, Resume Done, Resume Fault, Resume Done]
     (exec mock_jwt [CallConnect Done, Start] (initial None None))))) =
     [1, 2, 4, 8, 16, 32, 60, 60]"
proof -
  let ?fs = "[ConnLost, Fault, Fault, ConnLost, Fault, Fault, Fault, Fault]"
  let ?s = "(new_session None None)\<lparr>websocket := Some 0, running := True\<rparr>"
  let ?w = "new_world\<lparr>opened := 1\<rparr>"
  have start: "exec mock_jwt [CallConnect Done, Start] (initial None None) = (AtRecv 0, ?s, ?w)"
    by (simp add: ws_eval)
  have h: "running ?s \<and> reconnect_delay ?s = 1.0 \<and>
      (AtRecv 0 = AtRecv 0 \<or> AtRecv 0 = AtConnect \<and> websocket ?s = None) \<and>
      set ?fs \<subseteq> {ConnLost, Fault}"
    by (simp add: new_session_def RECONNECT_DELAY_def)
  have "sleeps (snd (snd (exec mock_jwt (concat (map (\<lambda>f. [Resume f, Resume Done]) ?fs))
      (AtRecv 0, ?s, ?w)))) = sleeps ?w @ map (\<lambda>i. min (2 ^ i) 60.0) [0..<length ?fs]"
    using reconnect_backoff_sequence [of ?s "AtRecv 0" 0 ?fs mock_jwt ?w] h by blast
  moreover have "map (\<lambda>i. min (2 ^ i) (60.0::real)) [0..<length ?fs] =
      [1.0, 2.0, 4.0, 8.0, 16.0, 32.0, 60.0, 60.0]"
    using reconnect_backoff_sequence [of ?s "AtRecv 0" 0 ?fs mock_jwt ?w] by simp
  ultimately show ?thesis
    using start by (simp add: new_world_def del: step.simps)
qed

subsection \<open>The connection handle and the running flag\<close>

lemma channel_msgs_error: "channel_msgs chs = Inl e \<Longrightarrow> \<exists>k. e = KeyError k"
  by (induction chs arbitrary: e)
     (auto simp: channel_msg_def split: sum.splits option.splits)

lemma subscribe_begin_error:
  assumes "subscribe_begin sign t chs (s, w) = (Inl e, w')"
  shows "e \<noteq> CancelledError"
  using assms channel_msgs_error [of chs]
  by (auto simp: subscribe_begin_def split: option.splits prod.splits sum.splits)

lemma handler_keeps:
  assumes "e \<noteq> CancelledError" "websocket s \<noteq> None \<longrightarrow> running s \<or> closing w \<noteq> []"
  shows "websocket (fst (snd (handler e (s, w)))) \<noteq> None \<longrightarrow>
         running (fst (snd (handler e (s, w)))) \<or> closing (snd (snd (handler e (s, w)))) \<noteq> []"
  using assms
  by (cases e) (auto simp: handler_def backoff_def loop_head_def split: option.splits)

lemma resubscribe_keeps:
  assumes "websocket s \<noteq> None \<longrightarrow> running s \<or> closing w \<noteq> []"
  shows "websocket (fst (snd (resubscribe sign subs (s, w)))) \<noteq> None \<longrightarrow>
         running (fst (snd (resubscribe sign subs (s, w)))) \<or>
         closing (snd (snd (resubscribe sign subs (s, w)))) \<noteq> []"
proof (cases subs)
  case Nil
  with assms show ?thesis by (simp add: loop_head_def split: option.splits)
next
  case (Cons sub rest)
  obtain t chs where sub: "sub = (t, chs)" by (cases sub)
  obtain r w' where b: "subscribe_begin sign t chs (s, w) = (r, w')"
    by (cases "subscribe_begin sign t chs (s, w)")
  have cl: "closing w' = closing w"
    using b by (auto simp: subscribe_begin_def ticket_msg_def
        split: option.splits prod.splits sum.splits if_splits)
  show ?thesis
  proof (cases r)
    case (Inl e)
    with b have "e \<noteq> CancelledError" using subscribe_begin_error by blast
    moreover have "websocket s \<noteq> None \<longrightarrow> running s \<or> closing w' \<noteq> []"
      using assms cl by simp
    ultimately have "websocket (fst (snd (handler e (s, w')))) \<noteq> None \<longrightarrow>
         running (fst (snd (handler e (s, w')))) \<or> closing (snd (snd (handler e (s, w')))) \<noteq> []"
      by (rule handler_keeps)
    with Inl b Cons sub show ?thesis by simp
  next
    case (Inr cm)
    with assms b Cons sub cl show ?thesis by (cases cm) simp
  qed
qed

lemma step_keeps:
  assumes "websocket s \<noteq> None \<longrightarrow> running s \<or> closing w \<noteq> []"
    and "ev \<noteq> Resume Cancel" and "\<forall>i r. ev = CloseResume i r \<longrightarrow> r = Done"
  shows "websocket (fst (snd (step sign ev (p, s, w)))) \<noteq> None \<longrightarrow>
         running (fst (snd (step sign ev (p, s, w)))) \<or>
         closing (snd (snd (step sign ev (p, s, w)))) \<noteq> []"
proof (cases ev)
  case Start
  with assms(1) show ?thesis by (cases p) (auto simp: loop_head_def split: option.splits)
next
  case (Resume r)
  with assms(2) have r: "r \<noteq> Cancel" by simp
  show ?thesis
  proof (cases p)
    case Idle
    with Resume assms(1) show ?thesis by simp
  next
    case AtConnect
    show ?thesis
    proof (cases r)
      case Done
      let ?s1 = "s\<lparr>websocket := Some (opened w), running := True,
                 reconnect_delay := RECONNECT_DELAY, subscriptions := []\<rparr>"
      let ?w1 = "w\<lparr>opened := opened w + 1\<rparr>"
      have "websocket (fst (snd (resubscribe sign (subscriptions s) (?s1, ?w1)))) \<noteq> None \<longrightarrow>
            running (fst (snd (resubscribe sign (subscriptions s) (?s1, ?w1)))) \<or>
            closing (snd (snd (resubscribe sign (subscriptions s) (?s1, ?w1)))) \<noteq> []"
        by (rule resubscribe_keeps) simp
      with Done Resume AtConnect show ?thesis by (simp add: connect_def)
    next
      case ConnLost
      with Resume AtConnect handler_keeps [OF _ assms(1)] show ?thesis by (simp add: connect_def)
    next
      case Fault
      with Resume AtConnect handler_keeps [OF _ assms(1)] show ?thesis by (simp add: connect_def)
    next
      case Cancel
      with r show ?thesis by simp
    qed
  next
    case (AtSend t chs c m rest)
    show ?thesis
    proof (cases r)
      case Done
      let ?s1 = "s\<lparr>subscriptions := subscriptions s @ [(t, chs)]\<rparr>"
      let ?w1 = "w\<lparr>frames := frames w @ [(c, m)]\<rparr>"
      have "websocket (fst (snd (resubscribe sign rest (?s1, ?w1)))) \<noteq> None \<longrightarrow>
            running (fst (snd (resubscribe sign rest (?s1, ?w1)))) \<or>
            closing (snd (snd (resubscribe sign rest (?s1, ?w1)))) \<noteq> []"
        using assms(1) by (intro resubscribe_keeps) simp
      with Done Resume AtSend show ?thesis by (simp add: subscribe_end_def)
    next
      case ConnLost
      with Resume AtSend handler_keeps [OF _ assms(1)] show ?thesis
        by (simp add: subscribe_end_def)
    next
      case Fault
      with Resume AtSend handler_keeps [OF _ assms(1)] show ?thesis
        by (simp add: subscribe_end_def)
    next
      case Cancel
      with r show ?thesis by simp
    qed
  next
    case (AtRecv c)
    with Resume assms(1) r handler_keeps [OF _ assms(1)] show ?thesis by (cases r) auto
  next
    case AtSleep
    with Resume assms(1) r show ?thesis
      by (cases r) (auto simp: loop_head_def split: option.splits)
  next
    case (Exited x)
    with Resume assms(1) show ?thesis by simp
  qed
next
  case EndOfStream
  with assms(1) show ?thesis by (cases p) (auto simp: loop_head_def split: option.splits)
next
  case (CallConnect r)
  with assms(1) show ?thesis by (cases r) (auto simp: connect_def)
next
  case (CallSubscribe t chs r)
  with assms(1) show ?thesis
    by (cases r)
       (auto simp: subscribe_def subscribe_begin_def subscribe_end_def ticket_msg_def
             split: option.splits prod.splits sum.splits if_splits)
next
  case (CallUnsubscribe t)
  with assms(1) show ?thesis by (auto simp: unsubscribe_def)
next
  case CallClose
  then show ?thesis by (auto simp: close_begin_def split: option.splits)
next
  case (CloseResume i r)
  with assms(3) have "r = Done" by simp
  with CloseResume assms(1) show ?thesis by (auto simp: close_end_def)
qed

lemma exec_keeps:
  assumes "websocket (fst (snd cfg)) \<noteq> None \<longrightarrow>
           running (fst (snd cfg)) \<or> closing (snd (snd cfg)) \<noteq> []"
    and "\<forall>ev \<in> set evs. ev \<noteq> Resume Cancel \<and> (\<forall>i r. ev = CloseResume i r \<longrightarrow> r = Done)"
  shows "websocket (fst (snd (exec sign evs cfg))) \<noteq> None \<longrightarrow>
         running (fst (snd (exec sign evs cfg))) \<or> closing (snd (snd (exec sign evs cfg))) \<noteq> []"
  using assms
proof (induction evs arbitrary: cfg)
  case Nil
  then show ?case by (simp add: exec_Nil)
next
  case (Cons ev evs)
  obtain p s w where cfg: "cfg = (p, s, w)" by (cases cfg)
  have "websocket (fst (snd (step sign ev (p, s, w)))) \<noteq> None \<longrightarrow>
         running (fst (snd (step sign ev (p, s, w)))) \<or>
         closing (snd (snd (step sign ev (p, s, w)))) \<noteq> []"
    using Cons.prems cfg by (intro step_keeps) simp_all
  then have "websocket (fst (snd (exec sign evs (step sign ev (p, s, w))))) \<noteq> None \<longrightarrow>
         running (fst (snd (exec sign evs (step sign ev (p, s, w))))) \<or>
         closing (snd (snd (exec sign evs (step sign ev (p, s, w))))) \<noteq> []"
    using Cons.prems(2) by (intro Cons.IH) simp_all
  then show ?case by (simp only: cfg exec_Cons)
qed

text \<open>
  Claim C3, as the code has it.  In every state reached from a new session by calls of
  \<open>connect\<close>, \<open>subscribe\<close>, \<open>unsubscribe\<close>, \<open>close\<close> and \<open>run\<close>, by steps of \<open>run\<close> and by
  the ends of the \<open>await\<close> inside \<open>close\<close>, where no \<open>await\<close> inside \<open>run\<close> is cancelled and
  no \<open>await\<close> inside \<open>close\<close> raises: when the connection handle is set, \<open>running\<close> is true
  or a call of \<open>close\<close> is in progress, between setting \<open>running\<close> to false and clearing
  the handle.  \<open>close\<close> on a session with a connection sets \<open>running\<close> to false and
  leaves the handle set until its \<open>await\<close> ends, which clears it.  A cancellation that
  reaches \<open>run\<close> at the message iteration, at a replayed \<open>send\<close> or in \<open>connect\<close> sets
  \<open>running\<close> to false, leaves the connection handle as it is and is raised again.
\<close>

theorem connection_implies_running_unless_cancelled:
  "((\<forall>ev \<in> set evs. ev \<noteq> Resume Cancel \<and> (\<forall>i r. ev = CloseResume i r \<longrightarrow> r = Done)) \<longrightarrow>
      (websocket (fst (snd (exec sign evs (initial ak sk)))) \<noteq> None \<longrightarrow>
       running (fst (snd (exec sign evs (initial ak sk)))) \<or>
       closing (snd (snd (exec sign evs (initial ak sk)))) \<noteq> [])) \<and>
   (websocket s = Some c \<longrightarrow>
      step sign CallClose (p, s, w) =
        (p, s\<lparr>running := False\<rparr>, w\<lparr>closing := closing w @ [c]\<rparr>)) \<and>
   (i < length (closing w) \<longrightarrow>
      step sign (CloseResume i Done) (p, s, w) =
        (p, s\<lparr>websocket := None\<rparr>,
         w\<lparr>closed := closed w @ [closing w ! i],
           closing := take i (closing w) @ drop (Suc i) (closing w)\<rparr>)) \<and>
   (p = AtRecv c \<or> p = AtConnect \<or> p = AtSend t chs c m rest \<longrightarrow>
      step sign (Resume Cancel) (p, s, w) =
        (Exited (Some CancelledError), s\<lparr>running := False\<rparr>, w))"
proof (intro conjI impI)
  assume a: "\<forall>ev \<in> set evs. ev \<noteq> Resume Cancel \<and> (\<forall>i r. ev = CloseResume i r \<longrightarrow> r = Done)"
    and b: "websocket (fst (snd (exec sign evs (initial ak sk)))) \<noteq> None"
  have "websocket (fst (snd (initial ak sk))) \<noteq> None \<longrightarrow>
      running (fst (snd (initial ak sk))) \<or> closing (snd (snd (initial ak sk))) \<noteq> []"
    by (simp add: initial_def new_session_def)
  from exec_keeps [OF this a] b
  show "running (fst (snd (exec sign evs (initial ak sk)))) \<or>
       closing (snd (snd (exec sign evs (initial ak sk)))) \<noteq> []" by blast
next
  assume "websocket s = Some c"
  then show "step sign CallClose (p, s, w) =
        (p, s\<lparr>running := False\<rparr>, w\<lparr>closing := closing w @ [c]\<rparr>)"
    by (simp add: close_begin_def)
next
  assume "i < length (closing w)"
  then show "step sign (CloseResume i Done) (p, s, w) =
        (p, s\<lparr>websocket := None\<rparr>,
         w\<lparr>closed := closed w @ [closing w ! i],
           closing := take i (closing w) @ drop (Suc i) (closing w)\<rparr>)"
    by (simp add: close_end_def)
next
  assume "p = AtRecv c \<or> p = AtConnect \<or> p = AtSend t chs c m rest"
  then show "step sign (Resume Cancel) (p, s, w) =
        (Exited (Some CancelledError), s\<lparr>running := False\<rparr>, w)"
    by (auto simp: handler_def connect_def subscribe_end_def)
qed

theorem connection_implies_running_unless_cancelled_witness:
  "websocket (fst (snd (exec mock_jwt
     [CallConnect Done, CallSubscribe ''t1'' [[(''type'', JStr ''ticker'')]] Done, Start,
      Resume Done, Resume ConnLost, Resume Done, Resume Done, Resume Done]
     (initial None None)))) = Some 1 \<and>
   running (fst (snd (exec mock_jwt
     [CallConnect Done, CallSubscribe ''t1'' [[(''type'', JStr ''ticker'')]] Done, Start,
      Resume Done, Resume ConnLost, Resume Done, Resume Done, Resume Done]
     (initial None None)))) \<and>
   exec mock_jwt [CallConnect Done, Start, CallClose] (initial None None) =
     (AtRecv 0,
      (new_session None None)\<lparr>websocket := Some 0\<rparr>,
      new_world\<lparr>opened := 1, closing := [0]\<rparr>) \<and>
   exec mock_jwt [CallConnect Done, Start, CallClose, CloseResume 0 Done, EndOfStream]
     (initial None None) =
     (Exited None, new_session None None, new_world\<lparr>opened := 1, closed := [0]\<rparr>) \<and>
   step mock_jwt (Resume Cancel)
     (AtRecv 0, (new_session None None)\<lparr>websocket := Some 0, running := True\<rparr>, new_world) =
     (Exited (Some CancelledError),
      (new_session None None)\<lparr>websocket := Some 0, running := False\<rparr>, new_world)"
proof -
  let ?evs = "[CallConnect Done, CallSubscribe ''t1'' [[(''type'', JStr ''ticker'')]] Done, Start,
      Resume Done, Resume ConnLost, Resume Done, Resume Done, Resume Done]"
  let ?cl = "[CallConnect Done, Start, CallClose]"
  have h: "\<forall>ev \<in> set ?evs. ev \<noteq> Resume Cancel \<and> (\<forall>i r. ev = CloseResume i r \<longrightarrow> r = Done)"
    by simp
  have ws: "websocket (fst (snd (exec mock_jwt ?evs (initial None None)))) = Some 1"
    and cl: "closing (snd (snd (exec mock_jwt ?evs (initial None None)))) = []"
    by (simp_all add: ws_eval)
  from ws have "websocket (fst (snd (exec mock_jwt ?evs (initial None None)))) \<noteq> None"
    by simp
  with connection_implies_running_unless_cancelled [of ?evs mock_jwt None None] h cl
  have r: "running (fst (snd (exec mock_jwt ?evs (initial None None))))"
    by simp
  have m: "exec mock_jwt ?cl (initial None None) =
     (AtRecv 0, (new_session None None)\<lparr>websocket := Some 0\<rparr>,
      new_world\<lparr>opened := 1, closing := [0]\<rparr>)"
    by (simp add: ws_eval)
  have e: "exec mock_jwt [CallConnect Done, Start, CallClose, CloseResume 0 Done, EndOfStream]
     (initial None None) =
     (Exited None, new_session None None, new_world\<lparr>opened := 1, closed := [0]\<rparr>)"
    by (simp add: ws_eval)
  have "step mock_jwt (Resume Cancel)
     (AtRecv 0, (new_session None None)\<lparr>websocket := Some 0, running := True\<rparr>, new_world) =
     (Exited (Some CancelledError),
      (new_session None None)\<lparr>websocket := Some 0, running := True\<rparr>\<lparr>running := False\<rparr>, new_world)"
    using connection_implies_running_unless_cancelled
      [where p = "AtRecv 0" and c = 0 and sign = mock_jwt and w = new_world
         and s = "(new_session None None)\<lparr>websocket := Some 0, running := True\<rparr>"]
    by blast
  then have c: "step mock_jwt (Resume Cancel)
     (AtRecv 0, (new_session None None)\<lparr>websocket := Some 0, running := True\<rparr>, new_world) =
     (Exited (Some CancelledError),
      (new_session None None)\<lparr>websocket := Some 0, running := False\<rparr>, new_world)"
    by simp
  from ws r m e c show ?thesis by (intro conjI)
qed

theorem connection_without_running_after_cancel:
  "websocket (fst (snd (exec mock_jwt [CallConnect Done, Start, Resume Cancel]
     (initial None None)))) = Some 0 \<and>
   \<not> running (fst (snd (exec mock_jwt [CallConnect Done, Start, Resume Cancel]
     (initial None None))))"
  by (simp add: ws_eval)

subsection \<open>Replay of the subscriptions after a reconnect\<close>

lemma subscribe_begin_typed:
  assumes "websocket s = Some c" "\<forall>ch \<in> set chs. map_of ch ''type'' \<noteq> None"
  shows "\<exists>m w'. subscribe_begin sign t chs (s, w) = (Inr (c, m), w')"
proof -
  from channel_msgs_typed [OF assms(2)] obtain ms where "channel_msgs chs = Inr ms" by blast
  with assms(1) show ?thesis
    by (simp add: subscribe_begin_def split: prod.splits)
qed

lemma subscribe_Done_websocket:
  "websocket (fst (snd (subscribe sign t chs Done (s, w)))) = websocket s"
  by (auto simp: subscribe_def subscribe_begin_def subscribe_end_def
      split: option.splits prod.splits sum.splits)

text \<open>
  When every replayed \<open>send\<close> completes, the replay is one \<open>subscribe\<close> call per pair, in
  order, and \<open>run\<close> goes on to iterate the messages of the connection.
\<close>

lemma resubscribe_all_sent:
  assumes "websocket s = Some c"
    and "\<forall>sub \<in> set subs. \<forall>ch \<in> set (snd sub). map_of ch ''type'' \<noteq> None"
  shows "exec sign (replicate (length subs) (Resume Done)) (resubscribe sign subs (s, w)) =
           (AtRecv c,
            fold (\<lambda>sub st. snd (subscribe sign (fst sub) (snd sub) Done st)) subs (s, w))"
  using assms
proof (induction subs arbitrary: s w)
  case Nil
  then show ?case by (simp add: exec_Nil)
next
  case (Cons sub subs)
  obtain t chs where sub: "sub = (t, chs)" by (cases sub)
  from Cons.prems sub have typed: "\<forall>ch \<in> set chs. map_of ch ''type'' \<noteq> None" by simp
  from subscribe_begin_typed [OF Cons.prems(1) typed] obtain m w' where
    b: "subscribe_begin sign t chs (s, w) = (Inr (c, m), w')" by blast
  let ?s1 = "s\<lparr>subscriptions := subscriptions s @ [(t, chs)]\<rparr>"
  let ?w1 = "w'\<lparr>frames := frames w' @ [(c, m)]\<rparr>"
  have one: "subscribe sign t chs Done (s, w) = (None, ?s1, ?w1)"
    using b by (simp add: subscribe_def subscribe_end_def)
  have first: "resubscribe sign ((t, chs) # subs) (s, w) = (AtSend t chs c m subs, s, w')"
    using b by simp
  have next_step: "step sign (Resume Done) (AtSend t chs c m subs, s, w') =
      resubscribe sign subs (?s1, ?w1)"
    by (simp add: subscribe_end_def)
  have "exec sign (replicate (length subs) (Resume Done)) (resubscribe sign subs (?s1, ?w1)) =
      (AtRecv c,
       fold (\<lambda>sub st. snd (subscribe sign (fst sub) (snd sub) Done st)) subs (?s1, ?w1))"
    using Cons.prems by (intro Cons.IH) simp_all
  then show ?case
    unfolding sub
    by (simp add: exec_Cons first next_step one del: step.simps resubscribe.simps)
qed

lemma fold_subscribe_subscriptions:
  assumes "websocket s = Some c"
    and "\<forall>sub \<in> set subs. \<forall>ch \<in> set (snd sub). map_of ch ''type'' \<noteq> None"
  shows "subscriptions (fst (fold (\<lambda>sub st. snd (subscribe sign (fst sub) (snd sub) Done st))
                               subs (s, w))) = subscriptions s @ subs"
  using assms
proof (induction subs arbitrary: s w)
  case Nil
  then show ?case by simp
next
  case (Cons sub subs)
  obtain t chs where sub: "sub = (t, chs)" by (cases sub)
  from Cons.prems sub have typed: "\<forall>ch \<in> set chs. map_of ch ''type'' \<noteq> None" by simp
  from subscribe_begin_typed [OF Cons.prems(1) typed] obtain m w' where
    b: "subscribe_begin sign t chs (s, w) = (Inr (c, m), w')" by blast
  let ?s1 = "s\<lparr>subscriptions := subscriptions s @ [(t, chs)]\<rparr>"
  let ?w1 = "w'\<lparr>frames := frames w' @ [(c, m)]\<rparr>"
  have one: "subscribe sign t chs Done (s, w) = (None, ?s1, ?w1)"
    using b by (simp add: subscribe_def subscribe_end_def)
  have "subscriptions (fst (fold (\<lambda>sub st. snd (subscribe sign (fst sub) (snd sub) Done st))
                               subs (?s1, ?w1))) = subscriptions ?s1 @ subs"
    using Cons.prems by (intro Cons.IH) simp_all
  then show ?case by (simp add: one sub)
qed

text \<open>
  The whole round: \<open>ConnectionClosed\<close> at the message iteration, the sleep, a \<open>connect\<close>
  that succeeds, and then every replayed \<open>send\<close> completing.
\<close>

lemma reconnect_replays_subscriptions:
  assumes "running s"
    and "\<forall>sub \<in> set (subscriptions s). \<forall>ch \<in> set (snd sub). map_of ch ''type'' \<noteq> None"
  shows "exec sign ([Resume ConnLost, Resume Done, Resume Done] @
                    replicate (length (subscriptions s)) (Resume Done)) (AtRecv c, s, w) =
           (AtRecv (opened w),
            fold (\<lambda>sub st. snd (subscribe sign (fst sub) (snd sub) Done st)) (subscriptions s)
              (s\<lparr>websocket := Some (opened w), running := True,
                 reconnect_delay := RECONNECT_DELAY, subscriptions := []\<rparr>,
               w\<lparr>sleeps := sleeps w @ [reconnect_delay s], opened := opened w + 1\<rparr>)) \<and>
         subscriptions (fst (snd (exec sign ([Resume ConnLost, Resume Done, Resume Done] @
                    replicate (length (subscriptions s)) (Resume Done)) (AtRecv c, s, w)))) =
           subscriptions s"
proof -
  let ?s0 = "s\<lparr>websocket := Some (opened w), running := True,
                 reconnect_delay := RECONNECT_DELAY, subscriptions := []\<rparr>"
  let ?w0 = "w\<lparr>sleeps := sleeps w @ [reconnect_delay s], opened := opened w + 1\<rparr>"
  have three: "exec sign [Resume ConnLost, Resume Done, Resume Done] (AtRecv c, s, w) =
      resubscribe sign (subscriptions s) (?s0, ?w0)"
    using assms(1)
    by (simp add: exec_Cons exec_Nil handler_def backoff_def loop_head_def connect_def)
  have ws: "websocket ?s0 = Some (opened w)" by simp
  have r: "exec sign (replicate (length (subscriptions s)) (Resume Done))
        (resubscribe sign (subscriptions s) (?s0, ?w0)) =
      (AtRecv (opened w),
       fold (\<lambda>sub st. snd (subscribe sign (fst sub) (snd sub) Done st)) (subscriptions s) (?s0, ?w0))"
    using assms(2) by (intro resubscribe_all_sent [OF ws])
  have e: "exec sign ([Resume ConnLost, Resume Done, Resume Done] @
                    replicate (length (subscriptions s)) (Resume Done)) (AtRecv c, s, w) =
      (AtRecv (opened w),
       fold (\<lambda>sub st. snd (subscribe sign (fst sub) (snd sub) Done st)) (subscriptions s) (?s0, ?w0))"
    by (simp only: exec_append three r)
  have "subscriptions (fst (fold (\<lambda>sub st. snd (subscribe sign (fst sub) (snd sub) Done st))
          (subscriptions s) (?s0, ?w0))) = subscriptions ?s0 @ subscriptions s"
    using assms(2) by (intro fold_subscribe_subscriptions [OF ws])
  with e show ?thesis by simp
qed

text \<open>
  Claim C2.  \<open>_resubscribe\<close> empties \<open>subscriptions\<close> before it sends anything, and each
  pair comes back only when its own \<open>send\<close> has completed.  Here a session with two
  subscriptions loses the connection; \<open>run\<close> sleeps and reconnects, and the first
  replayed \<open>send\<close> raises \<open>ConnectionClosed\<close>.  At that point \<open>subscriptions\<close> is empty,
  and after the next sleep and reconnect \<open>run\<close> replays nothing: only the two frames of
  the original \<open>subscribe\<close> calls were ever sent, and \<open>subscriptions\<close> stays empty.
\<close>

theorem resubscribe_failure_loses_subscriptions:
  "exec mock_jwt
     [CallConnect Done,
      CallSubscribe ''t1'' [[(''type'', JStr ''ticker''), (''codes'', JArr [JStr ''KRW-BTC''])]] Done,
      CallSubscribe ''t2'' [[(''type'', JStr ''trade''), (''codes'', JArr [JStr ''KRW-ETH''])]] Done,
      Start, Resume ConnLost, Resume Done, Resume Done, Resume ConnLost]
     (initial None None) =
     (AtSleep,
      (new_session None None)\<lparr>running := True\<rparr>,
      \<lparr>frames =
         [(0, JArr [JObj [(''ticket'', JStr ''t1'')],
                    JObj [(''type'', JStr ''ticker''), (''codes'', JArr [JStr ''KRW-BTC''])],
                    JObj [(''format'', JStr ''DEFAULT'')]]),
          (0, JArr [JObj [(''ticket'', JStr ''t2'')],
                    JObj [(''type'', JStr ''trade''), (''codes'', JArr [JStr ''KRW-ETH''])],
                    JObj [(''format'', JStr ''DEFAULT'')]])],
       sleeps = [1, 1], opened = 2, tokens = 0, closed = [], closing = []\<rparr>) \<and>
   exec mock_jwt
     [CallConnect Done,
      CallSubscribe ''t1'' [[(''type'', JStr ''ticker''), (''codes'', JArr [JStr ''KRW-BTC''])]] Done,
      CallSubscribe ''t2'' [[(''type'', JStr ''trade''), (''codes'', JArr [JStr ''KRW-ETH''])]] Done,
      Start, Resume ConnLost, Resume Done, Resume Done, Resume ConnLost,
      Resume Done, Resume Done]
     (initial None None) =
     (AtRecv 2,
      (new_session None None)\<lparr>websocket := Some 2, running := True\<rparr>,
      \<lparr>frames =
         [(0, JArr [JObj [(''ticket'', JStr ''t1'')],
                    JObj [(''type'', JStr ''ticker''), (''codes'', JArr [JStr ''KRW-BTC''])],
                    JObj [(''format'', JStr ''DEFAULT'')]]),
          (0, JArr [JObj [(''ticket'', JStr ''t2'')],
                    JObj [(''type'', JStr ''trade''), (''codes'', JArr [JStr ''KRW-ETH''])],
                    JObj [(''format'', JStr ''DEFAULT'')]])],
       sleeps = [1, 1], opened = 3, tokens = 0, closed = [], closing = []\<rparr>)"
  by (simp add: ws_eval)

end
